theory Spec2Isabelle
  imports Complex_Main "HOL-Library.Word"
begin

section \<open>Message queue (analyzer/mq.c)\<close>

text \<open>
  The queue is a singly linked list of message headers in memory, reached through the
  \<open>head\<close> and \<open>tail\<close> pointers of \<open>struct suscan_mq\<close>.  Memory is an explicit store from
  addresses to headers; a pointer is an \<open>addr option\<close> with \<open>None\<close> for \<open>NULL\<close>.
  Every operation returns an \<open>option\<close>: \<open>None\<close> stands for a run that does not return
  (a load or store through a pointer that is not allocated, a traversal that never
  ends, or a blocking read that waits for a writer that a sequential run does not have).
  The mutex and the condition variable are not modelled.
\<close>

type_synonym addr = nat
type_synonym u32 = "32 word"

record 'p suscan_msg =
  msg_type :: u32
  msg_private :: 'p
  msg_next :: "addr option"

type_synonym 'p memory = "addr \<Rightarrow> 'p suscan_msg option"

record suscan_mq =
  head :: "addr option"
  tail :: "addr option"

text \<open>The store \<open>msg->next = n\<close>.\<close>

definition set_next :: "'p memory \<Rightarrow> addr \<Rightarrow> addr option \<Rightarrow> 'p memory option" where
  "set_next mem msg n =
     (case mem msg of None \<Rightarrow> None | Some m \<Rightarrow> Some (mem(msg \<mapsto> m\<lparr>msg_next := n\<rparr>)))"

text \<open>
  \<open>suscan_mq_alloc_msg\<close> and \<open>suscan_mq_return_msg\<close>, in the variant without the pool:
  \<open>malloc\<close> and \<open>free\<close>.  The pointer that \<open>malloc\<close> returns is an argument
  (\<open>None\<close> when it fails).
\<close>

definition suscan_mq_return_msg :: "'p memory \<Rightarrow> addr \<Rightarrow> 'p memory" where
  "suscan_mq_return_msg mem msg = mem(msg := None)"

definition suscan_msg_new ::
  "'p memory \<Rightarrow> addr option \<Rightarrow> u32 \<Rightarrow> 'p \<Rightarrow> 'p memory \<times> addr option" where
  "suscan_msg_new mem alloc ty priv =
     (case alloc of
        None \<Rightarrow> (mem, None)
      | Some new \<Rightarrow>
          (mem(new \<mapsto> \<lparr>msg_type = ty, msg_private = priv, msg_next = None\<rparr>), Some new))"

definition suscan_msg_destroy :: "'p memory \<Rightarrow> addr \<Rightarrow> 'p memory" where
  "suscan_msg_destroy mem msg = suscan_mq_return_msg mem msg"

definition suscan_mq_push_front ::
  "'p memory \<Rightarrow> suscan_mq \<Rightarrow> addr \<Rightarrow> ('p memory \<times> suscan_mq) option" where
  "suscan_mq_push_front mem mq msg =
     (case set_next mem msg (head mq) of
        None \<Rightarrow> None
      | Some mem1 \<Rightarrow>
          let mq1 = mq\<lparr>head := Some msg\<rparr>
          in Some (mem1, if tail mq1 = None then mq1\<lparr>tail := Some msg\<rparr> else mq1))"

definition suscan_mq_push ::
  "'p memory \<Rightarrow> suscan_mq \<Rightarrow> addr \<Rightarrow> ('p memory \<times> suscan_mq) option" where
  "suscan_mq_push mem mq msg =
     (case (case tail mq of None \<Rightarrow> Some mem | Some t \<Rightarrow> set_next mem t (Some msg)) of
        None \<Rightarrow> None
      | Some mem1 \<Rightarrow>
          let mq1 = mq\<lparr>tail := Some msg\<rparr>
          in Some (mem1, if head mq1 = None then mq1\<lparr>head := Some msg\<rparr> else mq1))"

definition suscan_mq_pop ::
  "'p memory \<Rightarrow> suscan_mq \<Rightarrow> ('p memory \<times> suscan_mq \<times> addr option) option" where
  "suscan_mq_pop mem mq =
     (case head mq of
        None \<Rightarrow> Some (mem, mq, None)
      | Some msg \<Rightarrow>
          (case mem msg of
             None \<Rightarrow> None
           | Some m \<Rightarrow>
               let mq1 = mq\<lparr>head := msg_next m\<rparr>;
                   mq2 = (if head mq1 = None then mq1\<lparr>tail := None\<rparr> else mq1)
               in (case set_next mem msg None of
                     None \<Rightarrow> None
                   | Some mem1 \<Rightarrow> Some (mem1, mq2, Some msg))))"

text \<open>
  The search loop of \<open>suscan_mq_pop_w_type\<close>: it walks the \<open>next\<close> pointers from \<open>this\<close>
  and returns the final values of \<open>prev\<close> and \<open>this\<close>.
\<close>

partial_function (option) pop_w_type_loop ::
  "'p memory \<Rightarrow> u32 \<Rightarrow> addr option \<Rightarrow> addr option \<Rightarrow> (addr option \<times> addr option) option" where
  "pop_w_type_loop mem ty prev this =
     (case this of
        None \<Rightarrow> Some (prev, None)
      | Some a \<Rightarrow>
          (case mem a of
             None \<Rightarrow> None
           | Some m \<Rightarrow>
               if msg_type m = ty then Some (prev, this)
               else pop_w_type_loop mem ty this (msg_next m)))"

definition suscan_mq_pop_w_type ::
  "'p memory \<Rightarrow> suscan_mq \<Rightarrow> u32 \<Rightarrow> ('p memory \<times> suscan_mq \<times> addr option) option" where
  "suscan_mq_pop_w_type mem mq ty =
     (case pop_w_type_loop mem ty None (head mq) of
        None \<Rightarrow> None
      | Some (prev, this) \<Rightarrow>
          (case this of
             None \<Rightarrow> Some (mem, mq, None)
           | Some a \<Rightarrow>
               (case mem a of
                  None \<Rightarrow> None
                | Some m \<Rightarrow>
                    (case (case prev of
                             None \<Rightarrow> Some (mem, mq\<lparr>head := msg_next m\<rparr>)
                           | Some p \<Rightarrow>
                               (case set_next mem p (msg_next m) of
                                  None \<Rightarrow> None
                                | Some mem1 \<Rightarrow> Some (mem1, mq))) of
                       None \<Rightarrow> None
                     | Some (mem1, mq1) \<Rightarrow>
                         let mq2 = (if this = tail mq1 then mq1\<lparr>tail := prev\<rparr> else mq1)
                         in (case set_next mem1 a None of
                               None \<Rightarrow> None
                             | Some mem2 \<Rightarrow> Some (mem2, mq2, this))))))"

text \<open>
  \<open>suscan_mq_read_msg_internal\<close> pops until it gets a message and waits on the condition
  variable in between.  Nothing else runs during a sequential call, so a failed pop
  means the call never returns.
\<close>

definition suscan_mq_read_msg_internal ::
  "'p memory \<Rightarrow> suscan_mq \<Rightarrow> bool \<Rightarrow> u32 \<Rightarrow> ('p memory \<times> suscan_mq \<times> addr) option" where
  "suscan_mq_read_msg_internal mem mq with_type ty =
     (case (if with_type then suscan_mq_pop_w_type mem mq ty else suscan_mq_pop mem mq) of
        None \<Rightarrow> None
      | Some (mem1, mq1, None) \<Rightarrow> None
      | Some (mem1, mq1, Some msg) \<Rightarrow> Some (mem1, mq1, msg))"

text \<open>
  \<open>suscan_mq_read_internal\<close>: \<open>ptype\<close> is the value \<open>*ptype\<close> held before the call, or
  \<open>None\<close> for a \<open>NULL\<close> pointer; the result carries the payload and the new \<open>*ptype\<close>.
\<close>

definition suscan_mq_read_internal ::
  "'p memory \<Rightarrow> suscan_mq \<Rightarrow> u32 option \<Rightarrow> u32 \<Rightarrow>
     ('p memory \<times> suscan_mq \<times> 'p \<times> u32 option) option" where
  "suscan_mq_read_internal mem mq ptype ty =
     (case suscan_mq_read_msg_internal mem mq (ptype = None) ty of
        None \<Rightarrow> None
      | Some (mem1, mq1, msg) \<Rightarrow>
          (case mem1 msg of
             None \<Rightarrow> None
           | Some m \<Rightarrow>
               Some (suscan_msg_destroy mem1 msg, mq1, msg_private m,
                     if ptype \<noteq> None then Some (msg_type m) else ptype)))"

definition suscan_mq_read ::
  "'p memory \<Rightarrow> suscan_mq \<Rightarrow> u32 option \<Rightarrow> ('p memory \<times> suscan_mq \<times> 'p \<times> u32 option) option" where
  "suscan_mq_read mem mq ty = suscan_mq_read_internal mem mq ty 0"

definition suscan_mq_read_w_type ::
  "'p memory \<Rightarrow> suscan_mq \<Rightarrow> u32 \<Rightarrow> ('p memory \<times> suscan_mq \<times> 'p) option" where
  "suscan_mq_read_w_type mem mq ty =
     (case suscan_mq_read_internal mem mq None ty of
        None \<Rightarrow> None
      | Some (mem1, mq1, priv, _) \<Rightarrow> Some (mem1, mq1, priv))"

definition suscan_mq_write_msg ::
  "'p memory \<Rightarrow> suscan_mq \<Rightarrow> addr \<Rightarrow> ('p memory \<times> suscan_mq) option" where
  "suscan_mq_write_msg mem mq msg = suscan_mq_push mem mq msg"

definition suscan_mq_write_msg_urgent ::
  "'p memory \<Rightarrow> suscan_mq \<Rightarrow> addr \<Rightarrow> ('p memory \<times> suscan_mq) option" where
  "suscan_mq_write_msg_urgent mem mq msg = suscan_mq_push_front mem mq msg"

definition suscan_mq_write ::
  "'p memory \<Rightarrow> suscan_mq \<Rightarrow> addr option \<Rightarrow> u32 \<Rightarrow> 'p \<Rightarrow>
     ('p memory \<times> suscan_mq \<times> bool) option" where
  "suscan_mq_write mem mq alloc ty priv =
     (case suscan_msg_new mem alloc ty priv of
        (mem1, None) \<Rightarrow> Some (mem1, mq, False)
      | (mem1, Some msg) \<Rightarrow>
          (case suscan_mq_write_msg mem1 mq msg of
             None \<Rightarrow> None
           | Some (mem2, mq2) \<Rightarrow> Some (mem2, mq2, True)))"

definition suscan_mq_write_urgent ::
  "'p memory \<Rightarrow> suscan_mq \<Rightarrow> addr option \<Rightarrow> u32 \<Rightarrow> 'p \<Rightarrow>
     ('p memory \<times> suscan_mq \<times> bool) option" where
  "suscan_mq_write_urgent mem mq alloc ty priv =
     (case suscan_msg_new mem alloc ty priv of
        (mem1, None) \<Rightarrow> Some (mem1, mq, False)
      | (mem1, Some msg) \<Rightarrow>
          (case suscan_mq_write_msg_urgent mem1 mq msg of
             None \<Rightarrow> None
           | Some (mem2, mq2) \<Rightarrow> Some (mem2, mq2, True)))"

definition suscan_mq_init :: suscan_mq where
  "suscan_mq_init = \<lparr>head = None, tail = None\<rparr>"

subsection \<open>The list a queue holds\<close>

text \<open>
  \<open>path mem p as q\<close>: following \<open>next\<close> from \<open>p\<close> visits exactly the allocated headers
  \<open>as\<close> and arrives at \<open>q\<close>.  A queue is well formed for \<open>as\<close> when \<open>head\<close> leads through
  \<open>as\<close> to \<open>NULL\<close> and \<open>tail\<close> is the last of them.
\<close>

fun path :: "'p memory \<Rightarrow> addr option \<Rightarrow> addr list \<Rightarrow> addr option \<Rightarrow> bool" where
  "path mem p [] q = (p = q)"
| "path mem p (b # bs) q =
     (p = Some b \<and> (case mem b of None \<Rightarrow> False | Some m \<Rightarrow> path mem (msg_next m) bs q))"

definition mq_wf :: "'p memory \<Rightarrow> suscan_mq \<Rightarrow> addr list \<Rightarrow> bool" where
  "mq_wf mem mq as \<longleftrightarrow>
     path mem (head mq) as None \<and> tail mq = (if as = [] then None else Some (last as))"

text \<open>What a reader will get: the type and payload of each header, in list order.\<close>

definition contents :: "'p memory \<Rightarrow> addr list \<Rightarrow> (u32 \<times> 'p) option list" where
  "contents mem as = map (\<lambda>a. map_option (\<lambda>m. (msg_type m, msg_private m)) (mem a)) as"

definition mq_holds :: "'p memory \<Rightarrow> suscan_mq \<Rightarrow> addr list \<Rightarrow> (u32 \<times> 'p) list \<Rightarrow> bool" where
  "mq_holds mem mq as xs \<longleftrightarrow> mq_wf mem mq as \<and> contents mem as = map Some xs"

subsection \<open>Sequences of calls\<close>

text \<open>
  A writer's calls, each with the pointer its \<open>malloc\<close> returned, and a reader that calls
  \<open>suscan_mq_read\<close> a given number of times, always with the same \<open>type\<close> argument:
  \<open>ptype\<close> is what \<open>*type\<close> holds before the first call, or \<open>None\<close> for a reader that
  passes \<open>NULL\<close>.
\<close>

datatype 'p mq_call =
    Write u32 'p "addr option"
  | Write_urgent u32 'p "addr option"

fun run_writes ::
  "'p memory \<Rightarrow> suscan_mq \<Rightarrow> 'p mq_call list \<Rightarrow> ('p memory \<times> suscan_mq) option" where
  "run_writes mem mq [] = Some (mem, mq)"
| "run_writes mem mq (Write ty priv alloc # cs) =
     (case suscan_mq_write mem mq alloc ty priv of
        None \<Rightarrow> None
      | Some (mem1, mq1, ok) \<Rightarrow> run_writes mem1 mq1 cs)"
| "run_writes mem mq (Write_urgent ty priv alloc # cs) =
     (case suscan_mq_write_urgent mem mq alloc ty priv of
        None \<Rightarrow> None
      | Some (mem1, mq1, ok) \<Rightarrow> run_writes mem1 mq1 cs)"

fun read_n ::
  "u32 option \<Rightarrow> nat \<Rightarrow> 'p memory \<Rightarrow> suscan_mq \<Rightarrow> ('p memory \<times> suscan_mq \<times> 'p list) option" where
  "read_n ptype 0 mem mq = Some (mem, mq, [])"
| "read_n ptype (Suc n) mem mq =
     (case suscan_mq_read mem mq ptype of
        None \<Rightarrow> None
      | Some (mem1, mq1, priv, ptype1) \<Rightarrow>
          (case read_n ptype1 n mem1 mq1 of
             None \<Rightarrow> None
           | Some (mem2, mq2, privs) \<Rightarrow> Some (mem2, mq2, priv # privs)))"

text \<open>\<open>malloc\<close> never returns an address that is allocated at the time of the call.\<close>

fun fresh_allocs :: "addr set \<Rightarrow> 'p mq_call list \<Rightarrow> bool" where
  "fresh_allocs A [] = True"
| "fresh_allocs A (Write ty priv alloc # cs) =
     (case alloc of None \<Rightarrow> fresh_allocs A cs | Some a \<Rightarrow> a \<notin> A \<and> fresh_allocs (insert a A) cs)"
| "fresh_allocs A (Write_urgent ty priv alloc # cs) =
     (case alloc of None \<Rightarrow> fresh_allocs A cs | Some a \<Rightarrow> a \<notin> A \<and> fresh_allocs (insert a A) cs)"

text \<open>The messages that the calls enqueue (a call whose \<open>malloc\<close> fails enqueues nothing).\<close>

fun urgent_written :: "'p mq_call list \<Rightarrow> (u32 \<times> 'p) list" where
  "urgent_written [] = []"
| "urgent_written (Write_urgent ty priv (Some a) # cs) = (ty, priv) # urgent_written cs"
| "urgent_written (c # cs) = urgent_written cs"

fun normal_written :: "'p mq_call list \<Rightarrow> (u32 \<times> 'p) list" where
  "normal_written [] = []"
| "normal_written (Write ty priv (Some a) # cs) = (ty, priv) # normal_written cs"
| "normal_written (c # cs) = normal_written cs"

text \<open>The queue of scenario S4: type 1 \<open>P1\<close>, type 2 \<open>P2\<close>, type 1 \<open>P3\<close>.\<close>

definition s4_mem :: "string memory" where
  "s4_mem = [0 \<mapsto> \<lparr>msg_type = 1, msg_private = ''P1'', msg_next = Some 1\<rparr>,
             1 \<mapsto> \<lparr>msg_type = 2, msg_private = ''P2'', msg_next = Some 2\<rparr>,
             2 \<mapsto> \<lparr>msg_type = 1, msg_private = ''P3'', msg_next = None\<rparr>]"

section \<open>Inspector and sample feed\<close>

text \<open>
  \<open>SUFLOAT\<close> is modelled as \<open>real\<close> and \<open>SUCOMPLEX\<close> as \<open>complex\<close>: the arithmetic is exact,
  rounding, infinities and NaN are not modelled.  The DSP objects of sigutils (channel
  detector, NCO, AGC, Costas loop) are outside this repository; their states are the
  type parameters \<open>'det\<close>, \<open>'nco\<close>, \<open>'agc\<close>, \<open>'pll\<close> and their functions are the
  fields of a \<open>sigutils\<close> record that every definition takes as \<open>su\<close>.  A function
  that mutates an object returns the new object.
\<close>

datatype suscan_async_state =
    SUSCAN_ASYNC_STATE_CREATED
  | SUSCAN_ASYNC_STATE_RUNNING
  | SUSCAN_ASYNC_STATE_HALTING
  | SUSCAN_ASYNC_STATE_HALTED

datatype suscan_inspector_carrier_control =
    SUSCAN_INSPECTOR_CARRIER_CONTROL_MANUAL
  | SUSCAN_INSPECTOR_CARRIER_CONTROL_COSTAS_2
  | SUSCAN_INSPECTOR_CARRIER_CONTROL_COSTAS_4

text \<open>
  \<open>struct suscan_inspector_params\<close>.  Its field \<open>sym_phase\<close> is \<open>params_sym_phase\<close> here,
  since the inspector has a field \<open>sym_phase\<close> of its own.
\<close>

record suscan_inspector_params =
  inspector_id :: u32
  fc_ctrl :: suscan_inspector_carrier_control
  fc_off :: real
  fc_phi :: real
  baud :: real
  params_sym_phase :: real

text \<open>
  Types of sigutils that \<open>suscan_inspector_new\<close> fills in.  Only the fields that this
  repository reads or writes are kept; \<open>bw\<close> of the detector parameters is \<open>params_bw\<close>.
\<close>

record sigutils_channel =
  fc :: real
  bw :: real

datatype su_channel_detector_mode =
    SU_CHANNEL_DETECTOR_MODE_AUTOCORRELATION
  | SU_CHANNEL_DETECTOR_MODE_NONLINEAR_DIFF
  | SU_CHANNEL_DETECTOR_MODE_INITIAL

record sigutils_channel_detector_params =
  mode :: su_channel_detector_mode
  samp_rate :: nat
  window_size :: nat
  params_fc :: real
  params_bw :: real
  alpha :: real

record su_agc_params =
  fast_rise_t :: real
  fast_fall_t :: real
  slow_rise_t :: real
  slow_fall_t :: real
  hang_max :: real
  delay_line_size :: real
  mag_history_size :: real

datatype su_costas_kind = SU_COSTAS_KIND_BPSK | SU_COSTAS_KIND_QPSK

record ('det, 'nco, 'agc, 'pll) sigutils =
  sigutils_channel_detector_params_INITIALIZER :: sigutils_channel_detector_params
  su_channel_params_adjust_to_channel ::
    "sigutils_channel_detector_params \<Rightarrow> sigutils_channel \<Rightarrow> sigutils_channel_detector_params"
  su_channel_detector_new :: "sigutils_channel_detector_params \<Rightarrow> 'det option"
  su_channel_detector_feed :: "'det \<Rightarrow> complex \<Rightarrow> bool \<times> 'det"
  last_window_sample :: "'det \<Rightarrow> complex"
  detector_baud :: "'det \<Rightarrow> real"
  detector_samp_rate :: "'det \<Rightarrow> nat"
  su_ncqo_init :: "real \<Rightarrow> 'nco"
  su_ncqo_read :: "'nco \<Rightarrow> complex \<times> 'nco"
  su_ncqo_set_freq :: "'nco \<Rightarrow> real \<Rightarrow> 'nco"
  su_agc_init :: "su_agc_params \<Rightarrow> 'agc option"
  su_agc_feed :: "'agc \<Rightarrow> complex \<Rightarrow> complex \<times> 'agc"
  su_costas_init :: "su_costas_kind \<Rightarrow> real \<Rightarrow> real \<Rightarrow> nat \<Rightarrow> real \<Rightarrow> 'pll option"
  su_costas_feed :: "'pll \<Rightarrow> complex \<Rightarrow> 'pll"
  costas_y :: "'pll \<Rightarrow> complex"
  SU_ABS2NORM_FREQ :: "nat \<Rightarrow> real \<Rightarrow> real"

text \<open>
  \<open>suscan_inspector_t\<close>.  The last field is a ghost: it counts the assignments to
  \<open>sym_sampler_output\<close>, that is the symbols emitted so far.  No branch reads it.
\<close>

record ('det, 'nco, 'agc, 'pll, 'ts) suscan_inspector =
  state :: suscan_async_state
  fac_baud_det :: 'det
  nln_baud_det :: 'det
  lo :: 'nco
  phase :: complex
  agc :: 'agc
  costas_2 :: 'pll
  costas_4 :: 'pll
  params :: suscan_inspector_params
  sym_period :: real
  sym_phase :: real
  sym_last_sample :: complex
  sym_sampler_output :: complex
  sym_new_sample :: bool
  task_state :: 'ts
  symbols_emitted :: nat

text \<open>
  Lines 199-215 of \<open>suscan_inspector_feed_bulk\<close>: the symbol sampler.  \<open>SU_FLOOR\<close> takes
  a \<open>SUFLOAT\<close>, so the complex difference is converted to its real part.
\<close>

definition symbol_sampler ::
  "complex \<Rightarrow> complex \<Rightarrow> ('det, 'nco, 'agc, 'pll, 'ts) suscan_inspector \<Rightarrow>
     ('det, 'nco, 'agc, 'pll, 'ts) suscan_inspector" where
  "symbol_sampler samp_phase_samples sample insp =
     (if sym_period insp \<ge> 1 then
        let insp1 = insp\<lparr>sym_phase := sym_phase insp + 1\<rparr>;
            insp2 = (if sym_phase insp1 \<ge> sym_period insp1
                     then insp1\<lparr>sym_phase := sym_phase insp1 - sym_period insp1\<rparr>
                     else insp1);
            insp3 = insp2\<lparr>sym_new_sample :=
                      (\<lfloor>Re (complex_of_real (sym_phase insp2) - samp_phase_samples)\<rfloor> = 0)\<rparr>
        in if sym_new_sample insp3 then
             let alpha = sym_phase insp3 - of_int \<lfloor>sym_phase insp3\<rfloor>
             in insp3\<lparr>sym_sampler_output :=
                        0.5 * (complex_of_real (1 - alpha) * sym_last_sample insp3
                               + complex_of_real alpha * sample),
                      symbols_emitted := Suc (symbols_emitted insp3)\<rparr>
           else insp3
      else insp)"

text \<open>
  The body of the loop for the sample \<open>xi\<close>.  The flag is \<open>False\<close> when a detector
  refuses the sample (\<open>SU_TRYCATCH ... goto done\<close>).
\<close>

definition feed_bulk_body ::
  "('det, 'nco, 'agc, 'pll) sigutils \<Rightarrow> complex \<Rightarrow>
     ('det, 'nco, 'agc, 'pll, 'ts) suscan_inspector \<Rightarrow> complex \<Rightarrow>
     bool \<times> ('det, 'nco, 'agc, 'pll, 'ts) suscan_inspector" where
  "feed_bulk_body su samp_phase_samples insp xi =
     (case su_channel_detector_feed su (fac_baud_det insp) xi of
        (False, fac) \<Rightarrow> (False, insp\<lparr>fac_baud_det := fac\<rparr>)
      | (True, fac) \<Rightarrow>
          let insp1 = insp\<lparr>fac_baud_det := fac\<rparr> in
          (case su_channel_detector_feed su (nln_baud_det insp1) xi of
             (False, nln) \<Rightarrow> (False, insp1\<lparr>nln_baud_det := nln\<rparr>)
           | (True, nln) \<Rightarrow>
               let insp2 = insp1\<lparr>nln_baud_det := nln\<rparr>;
                   det_x = last_window_sample su (fac_baud_det insp2);
                   (lo_y, lo') = su_ncqo_read su (lo insp2);
                   insp3 = insp2\<lparr>lo := lo'\<rparr>;
                   det_x1 = det_x * (cnj lo_y * phase insp3);
                   (agc_y, agc') = su_agc_feed su (agc insp3) det_x1;
                   insp4 = insp3\<lparr>agc := agc'\<rparr>;
                   det_x2 = 2 * agc_y * 1.4142;
                   (insp5, sample) =
                     (case fc_ctrl (params insp4) of
                        SUSCAN_INSPECTOR_CARRIER_CONTROL_MANUAL \<Rightarrow> (insp4, det_x2)
                      | SUSCAN_INSPECTOR_CARRIER_CONTROL_COSTAS_2 \<Rightarrow>
                          let c = su_costas_feed su (costas_2 insp4) det_x2
                          in (insp4\<lparr>costas_2 := c\<rparr>, costas_y su c)
                      | SUSCAN_INSPECTOR_CARRIER_CONTROL_COSTAS_4 \<Rightarrow>
                          let c = su_costas_feed su (costas_4 insp4) det_x2
                          in (insp4\<lparr>costas_4 := c\<rparr>, costas_y su c));
                   insp6 = symbol_sampler samp_phase_samples sample insp5
               in (True, insp6\<lparr>sym_last_sample := sample\<rparr>)))"

text \<open>
  The \<open>for\<close> loop, from index \<open>i\<close>.  The buffer \<open>x\<close> is a list; reading \<open>x[i]\<close> beyond
  its end has no defined result (\<open>None\<close>).  The result is the inspector and the
  returned \<open>int\<close>: \<open>i\<close>, or \<open>-1\<close> after a failed feed.
\<close>

function feed_bulk_loop ::
  "('det, 'nco, 'agc, 'pll) sigutils \<Rightarrow> complex list \<Rightarrow> int \<Rightarrow> complex \<Rightarrow> int \<Rightarrow>
     ('det, 'nco, 'agc, 'pll, 'ts) suscan_inspector \<Rightarrow>
     (('det, 'nco, 'agc, 'pll, 'ts) suscan_inspector \<times> int) option" where
  "feed_bulk_loop su x count samp_phase_samples i insp =
     (if i < count \<and> \<not> sym_new_sample insp then
        (if i < 0 \<or> int (length x) \<le> i then None
         else
           (case feed_bulk_body su samp_phase_samples insp (x ! nat i) of
              (False, insp') \<Rightarrow> Some (insp', -1)
            | (True, insp') \<Rightarrow> feed_bulk_loop su x count samp_phase_samples (i + 1) insp'))
      else Some (insp, i))"
  by pat_completeness auto
termination
  by (relation "measure (\<lambda>(su, x, count, sps, i, insp). nat (count - i))") auto

definition suscan_inspector_feed_bulk ::
  "('det, 'nco, 'agc, 'pll) sigutils \<Rightarrow> ('det, 'nco, 'agc, 'pll, 'ts) suscan_inspector \<Rightarrow>
     complex list \<Rightarrow> int \<Rightarrow> (('det, 'nco, 'agc, 'pll, 'ts) suscan_inspector \<times> int) option" where
  "suscan_inspector_feed_bulk su insp x count =
     (let samp_phase_samples =
            complex_of_real (params_sym_phase (params insp) * sym_period insp)
      in feed_bulk_loop su x count samp_phase_samples 0 (insp\<lparr>sym_new_sample := False\<rparr>))"

text \<open>
  The state after the samples \<open>xs\<close> have gone through the loop body one after the other,
  when every feed succeeds (\<open>None\<close> otherwise).  The specification of the loop refers to it.
\<close>

fun feed_samples ::
  "('det, 'nco, 'agc, 'pll) sigutils \<Rightarrow> complex \<Rightarrow>
     ('det, 'nco, 'agc, 'pll, 'ts) suscan_inspector \<Rightarrow> complex list \<Rightarrow>
     ('det, 'nco, 'agc, 'pll, 'ts) suscan_inspector option" where
  "feed_samples su sps insp [] = Some insp"
| "feed_samples su sps insp (xi # xs) =
     (case feed_bulk_body su sps insp xi of
        (False, insp') \<Rightarrow> None
      | (True, insp') \<Rightarrow> feed_samples su sps insp' xs)"

text \<open>
  The phase that lines 201-203 leave: one more sample, and one period less once the
  period is reached.  \<open>spec_next_sym_phase\<close> is the same step as the specification words
  it, "advance by 1 and reduce modulo the period".
\<close>

definition next_sym_phase :: "real \<Rightarrow> real \<Rightarrow> real" where
  "next_sym_phase period ph = (if ph + 1 \<ge> period then ph + 1 - period else ph + 1)"

definition spec_next_sym_phase :: "real \<Rightarrow> real \<Rightarrow> real" where
  "spec_next_sym_phase period ph = (ph + 1) - period * of_int \<lfloor>(ph + 1) / period\<rfloor>"

text \<open>
  A sigutils for examples: the detector keeps the last sample and refuses the sample
  \<open>0\<close>; the NCO is its frequency and reads as 1; the AGC passes the signal through; the
  Costas loops keep their input.  In the example inspector the task state says whether
  a consumer is bound and which samples it still holds for the inspector.
\<close>

definition su_plain :: "(complex, real, unit, complex) sigutils" where
  "su_plain =
     \<lparr>sigutils_channel_detector_params_INITIALIZER =
        \<lparr>mode = SU_CHANNEL_DETECTOR_MODE_INITIAL, samp_rate = 0, window_size = 0,
         params_fc = 0, params_bw = 0, alpha = 0\<rparr>,
      su_channel_params_adjust_to_channel = (\<lambda>p c. p\<lparr>params_fc := fc c, params_bw := bw c\<rparr>),
      su_channel_detector_new = (\<lambda>p. if window_size p = 0 then None else Some 0),
      su_channel_detector_feed = (\<lambda>d xi. (xi \<noteq> 0, xi)),
      last_window_sample = (\<lambda>d. d),
      detector_baud = (\<lambda>d. 0),
      detector_samp_rate = (\<lambda>d. 8),
      su_ncqo_init = (\<lambda>f. f),
      su_ncqo_read = (\<lambda>n. (1, n)),
      su_ncqo_set_freq = (\<lambda>n f. f),
      su_agc_init = (\<lambda>p. Some ()),
      su_agc_feed = (\<lambda>a xi. (xi, a)),
      su_costas_init = (\<lambda>k f0 w ord gain. Some 0),
      su_costas_feed = (\<lambda>c xi. xi),
      costas_y = (\<lambda>c. c),
      SU_ABS2NORM_FREQ = (\<lambda>fs f. 2 * f / real fs)\<rparr>"

definition insp_plain :: "(complex, real, unit, complex, bool \<times> complex list) suscan_inspector" where
  "insp_plain =
     \<lparr>state = SUSCAN_ASYNC_STATE_RUNNING, fac_baud_det = 0, nln_baud_det = 0, lo = 0,
      phase = 1, agc = (), costas_2 = 0, costas_4 = 0,
      params = \<lparr>inspector_id = 7, fc_ctrl = SUSCAN_INSPECTOR_CARRIER_CONTROL_MANUAL,
                fc_off = 0, fc_phi = 0, baud = 0, params_sym_phase = 0\<rparr>,
      sym_period = 0, sym_phase = 0, sym_last_sample = 0, sym_sampler_output = 0,
      sym_new_sample = False, task_state = (False, []), symbols_emitted = 0\<rparr>"

section \<open>Analyzer: inspector table, control messages, worker callback\<close>

text \<open>
  The parts of suscan that are not among the sources are parameters too: the message
  type tags and \<open>SUSCAN_SOURCE_DEFAULT_BUFSIZ\<close>, and the consumer's task state (type
  \<open>'ts\<close>) with its functions.  \<open>suscan_consumer_task_state_assert_samples\<close> returns its
  result, the new task state and the buffer \<open>samp[0..got)\<close>.
\<close>

record 'ts suscan_env =
  SUSCAN_SOURCE_DEFAULT_BUFSIZ :: nat
  SUSCAN_ANALYZER_MESSAGE_TYPE_INSPECTOR :: u32
  SUSCAN_ANALYZER_MESSAGE_TYPE_SAMPLES :: u32
  task_state_zeroed :: 'ts
  task_state_consumer_is_null :: "'ts \<Rightarrow> bool"
  suscan_consumer_task_state_init :: "'ts \<Rightarrow> 'ts"
  suscan_consumer_task_state_assert_samples :: "'ts \<Rightarrow> bool \<times> 'ts \<times> complex list"
  suscan_consumer_task_state_advance :: "'ts \<Rightarrow> int \<Rightarrow> 'ts"
  suscan_consumer_remove_task :: "'ts \<Rightarrow> 'ts"

record suscan_baud_det_result =
  fac :: real
  nln :: real

text \<open>The kinds that the handler knows, and \<open>MSGKIND_OTHER\<close> for any other value.\<close>

datatype suscan_analyzer_inspector_msgkind =
    SUSCAN_ANALYZER_INSPECTOR_MSGKIND_OPEN
  | SUSCAN_ANALYZER_INSPECTOR_MSGKIND_GET_INFO
  | SUSCAN_ANALYZER_INSPECTOR_MSGKIND_GET_PARAMS
  | SUSCAN_ANALYZER_INSPECTOR_MSGKIND_PARAMS
  | SUSCAN_ANALYZER_INSPECTOR_MSGKIND_CLOSE
  | SUSCAN_ANALYZER_INSPECTOR_MSGKIND_INFO
  | SUSCAN_ANALYZER_INSPECTOR_MSGKIND_WRONG_HANDLE
  | SUSCAN_ANALYZER_INSPECTOR_MSGKIND_WRONG_KIND
  | MSGKIND_OTHER int

text \<open>
  \<open>struct suscan_analyzer_inspector_msg\<close>; its fields \<open>params\<close>, \<open>baud\<close> and \<open>inspector_id\<close>
  carry the prefix \<open>msg_\<close> here.
\<close>

record suscan_analyzer_inspector_msg =
  kind :: suscan_analyzer_inspector_msgkind
  req_id :: u32
  handle :: int
  status :: suscan_analyzer_inspector_msgkind
  channel :: sigutils_channel
  msg_params :: suscan_inspector_params
  msg_baud :: suscan_baud_det_result
  msg_inspector_id :: u32

record suscan_analyzer_sample_batch_msg =
  batch_inspector_id :: u32
  samples :: "complex list"

datatype mq_payload =
    Inspector_msg suscan_analyzer_inspector_msg
  | Sample_batch_msg suscan_analyzer_sample_batch_msg

text \<open>
  The analyzer with the memory it works on: the inspector objects (\<open>inspector_mem\<close>) that
  the table \<open>inspector_list\<close> points to, the headers of the output queue (\<open>msg_mem\<close>), the
  next addresses that \<open>calloc\<close> and \<open>malloc\<close> hand out (\<open>insp_brk\<close>, \<open>msg_brk\<close>), and the
  tasks that \<open>suscan_analyzer_push_task\<close> has queued for the worker, each the inspector
  that \<open>suscan_inspector_wk_cb\<close> gets as \<open>cb_private\<close>.
\<close>

record ('det, 'nco, 'agc, 'pll, 'ts) suscan_analyzer =
  inspector_list :: "addr option list"
  source_samp_rate :: nat
  mq_out :: suscan_mq
  inspector_mem :: "addr \<Rightarrow> ('det, 'nco, 'agc, 'pll, 'ts) suscan_inspector option"
  msg_mem :: "mq_payload memory"
  insp_brk :: addr
  msg_brk :: addr
  worker_tasks :: "addr list"

text \<open>What the environment decides during one call of the message handler.\<close>

record handler_choices =
  calloc_ok :: bool
  ptr_list_grows :: bool
  push_task_ok :: bool
  malloc_ok :: bool

definition SU_FALSE :: int where
  "SU_FALSE = 0"

text \<open>
  Modelled from the spec: \<open>SU_ABS2NORM_BAUD\<close>, a macro of sigutils.  The spec gives
  the symbol period as \<open>samp_rate / baud\<close> and as \<open>1 / normalize_baud(fs, baud)\<close>.
\<close>

definition SU_ABS2NORM_BAUD :: "nat \<Rightarrow> real \<Rightarrow> real" where
  "SU_ABS2NORM_BAUD fs b = b / real fs"

text \<open>
  Modelled from the spec: \<open>PTR_LIST_APPEND_CHECK\<close>, a macro of sigutils.  Registration
  "appends the inspector to the table"; the result is the new index, or \<open>-1\<close> when the
  table cannot grow.
\<close>

definition PTR_LIST_APPEND_CHECK ::
  "addr option list \<Rightarrow> bool \<Rightarrow> addr \<Rightarrow> addr option list \<times> int" where
  "PTR_LIST_APPEND_CHECK lst grows p =
     (if grows then (lst @ [Some p], int (length lst)) else (lst, -1))"

definition SUSCAN_INSPECTOR_FAST_RISE_FRAC :: real where
  "SUSCAN_INSPECTOR_FAST_RISE_FRAC = 3.9062 / 10"

definition SUSCAN_INSPECTOR_FAST_FALL_FRAC :: real where
  "SUSCAN_INSPECTOR_FAST_FALL_FRAC = 2 * SUSCAN_INSPECTOR_FAST_RISE_FRAC"

definition SUSCAN_INSPECTOR_SLOW_RISE_FRAC :: real where
  "SUSCAN_INSPECTOR_SLOW_RISE_FRAC = 10 * SUSCAN_INSPECTOR_FAST_RISE_FRAC"

definition SUSCAN_INSPECTOR_SLOW_FALL_FRAC :: real where
  "SUSCAN_INSPECTOR_SLOW_FALL_FRAC = 10 * SUSCAN_INSPECTOR_FAST_FALL_FRAC"

definition SUSCAN_INSPECTOR_HANG_MAX_FRAC :: real where
  "SUSCAN_INSPECTOR_HANG_MAX_FRAC = 0.19531"

definition SUSCAN_INSPECTOR_DELAY_LINE_FRAC :: real where
  "SUSCAN_INSPECTOR_DELAY_LINE_FRAC = 0.39072"

definition SUSCAN_INSPECTOR_MAG_HISTORY_FRAC :: real where
  "SUSCAN_INSPECTOR_MAG_HISTORY_FRAC = 0.39072"

text \<open>\<open>suscan_inspector_destroy\<close> ends with \<open>free(insp)\<close>.\<close>

definition suscan_inspector_destroy ::
  "('det, 'nco, 'agc, 'pll, 'ts) suscan_analyzer \<Rightarrow> addr \<Rightarrow>
     ('det, 'nco, 'agc, 'pll, 'ts) suscan_analyzer" where
  "suscan_inspector_destroy an insp = an\<lparr>inspector_mem := (inspector_mem an)(insp := None)\<rparr>"

text \<open>
  \<open>suscan_inspector_new\<close>.  \<open>calloc\<close> gives zeroed memory, so the fields that the
  function does not set are 0; for \<open>fc_ctrl\<close> that is the first enumerator.  Every
  failure goes to \<open>fail\<close>, which destroys the object: the memory is as before.
\<close>

definition suscan_inspector_new ::
  "('det, 'nco, 'agc, 'pll) sigutils \<Rightarrow> 'ts suscan_env \<Rightarrow>
     ('det, 'nco, 'agc, 'pll, 'ts) suscan_analyzer \<Rightarrow> bool \<Rightarrow> sigutils_channel \<Rightarrow>
     ('det, 'nco, 'agc, 'pll, 'ts) suscan_analyzer \<times> addr option" where
  "suscan_inspector_new su env an callocs chan =
     (if \<not> callocs then (an, None)
      else
        let new = insp_brk an;
            an1 = an\<lparr>insp_brk := Suc new\<rparr>;
            params0 = su_channel_params_adjust_to_channel su
                        (sigutils_channel_detector_params_INITIALIZER su) chan;
            params1 = params0\<lparr>samp_rate := source_samp_rate an,
                               window_size := SUSCAN_SOURCE_DEFAULT_BUFSIZ env,
                               alpha := 1 / 10 ^ 4\<rparr>;
            params2 = params1\<lparr>mode := SU_CHANNEL_DETECTOR_MODE_AUTOCORRELATION\<rparr>
        in
        (case su_channel_detector_new su params2 of
           None \<Rightarrow> (an1, None)
         | Some fac_det \<Rightarrow>
             let params3 = params2\<lparr>mode := SU_CHANNEL_DETECTOR_MODE_NONLINEAR_DIFF\<rparr> in
             (case su_channel_detector_new su params3 of
                None \<Rightarrow> (an1, None)
              | Some nln_det \<Rightarrow>
                  let tau = real (samp_rate params3) / params_bw params3;
                      agc_params =
                        \<lparr>fast_rise_t = tau * SUSCAN_INSPECTOR_FAST_RISE_FRAC,
                         fast_fall_t = tau * SUSCAN_INSPECTOR_FAST_FALL_FRAC,
                         slow_rise_t = tau * SUSCAN_INSPECTOR_SLOW_RISE_FRAC,
                         slow_fall_t = tau * SUSCAN_INSPECTOR_SLOW_FALL_FRAC,
                         hang_max = tau * SUSCAN_INSPECTOR_HANG_MAX_FRAC,
                         delay_line_size = tau * SUSCAN_INSPECTOR_DELAY_LINE_FRAC,
                         mag_history_size = tau * SUSCAN_INSPECTOR_MAG_HISTORY_FRAC\<rparr>;
                      omega = SU_ABS2NORM_FREQ su (samp_rate params3) (params_bw params3)
                  in
                  (case su_agc_init su agc_params of
                     None \<Rightarrow> (an1, None)
                   | Some agc0 \<Rightarrow>
                       (case su_costas_init su SU_COSTAS_KIND_BPSK 0 omega 3 (omega / 10 ^ 2) of
                          None \<Rightarrow> (an1, None)
                        | Some c2 \<Rightarrow>
                            (case su_costas_init su SU_COSTAS_KIND_QPSK 0 omega 3 (omega / 10 ^ 2) of
                               None \<Rightarrow> (an1, None)
                             | Some c4 \<Rightarrow>
                                 (an1\<lparr>inspector_mem := (inspector_mem an1)(new \<mapsto>
                                    \<lparr>state = SUSCAN_ASYNC_STATE_CREATED,
                                     fac_baud_det = fac_det, nln_baud_det = nln_det,
                                     lo = su_ncqo_init su 0, phase = 1, agc = agc0,
                                     costas_2 = c2, costas_4 = c4,
                                     params = \<lparr>inspector_id = 0,
                                       fc_ctrl = SUSCAN_INSPECTOR_CARRIER_CONTROL_MANUAL,
                                       fc_off = 0, fc_phi = 0, baud = 0, params_sym_phase = 0\<rparr>,
                                     sym_period = 0, sym_phase = 0, sym_last_sample = 0,
                                     sym_sampler_output = 0, sym_new_sample = False,
                                     task_state = task_state_zeroed env,
                                     symbols_emitted = 0\<rparr>)\<rparr>,
                                  Some new)))))))"

text \<open>
  \<open>suscan_analyzer_get_inspector\<close>.  The outer \<open>None\<close> is a table entry that points to
  freed memory, which the function would read.
\<close>

definition suscan_analyzer_get_inspector ::
  "('det, 'nco, 'agc, 'pll, 'ts) suscan_analyzer \<Rightarrow> int \<Rightarrow> addr option option" where
  "suscan_analyzer_get_inspector an hnd =
     (if hnd < 0 \<or> hnd \<ge> int (length (inspector_list an)) then Some None
      else
        (case inspector_list an ! nat hnd of
           None \<Rightarrow> Some None
         | Some brinsp \<Rightarrow>
             (case inspector_mem an brinsp of
                None \<Rightarrow> None
              | Some insp \<Rightarrow>
                  if state insp \<noteq> SUSCAN_ASYNC_STATE_RUNNING then Some None
                  else Some (Some brinsp))))"

definition suscan_analyzer_dispose_inspector_handle ::
  "('det, 'nco, 'agc, 'pll, 'ts) suscan_analyzer \<Rightarrow> int \<Rightarrow>
     ('det, 'nco, 'agc, 'pll, 'ts) suscan_analyzer \<times> bool" where
  "suscan_analyzer_dispose_inspector_handle an hnd =
     (if hnd < 0 \<or> hnd \<ge> int (length (inspector_list an)) then (an, False)
      else if inspector_list an ! nat hnd = None then (an, False)
      else (an\<lparr>inspector_list := (inspector_list an)[nat hnd := None]\<rparr>, True))"

text \<open>
  \<open>suscan_analyzer_register_inspector\<close>, with \<open>suscan_analyzer_push_task\<close> as the choice
  \<open>push_task_ok\<close>; a pushed task joins \<open>worker_tasks\<close>.
\<close>

definition suscan_analyzer_register_inspector ::
  "('det, 'nco, 'agc, 'pll, 'ts) suscan_analyzer \<Rightarrow> handler_choices \<Rightarrow> addr \<Rightarrow>
     (('det, 'nco, 'agc, 'pll, 'ts) suscan_analyzer \<times> int) option" where
  "suscan_analyzer_register_inspector an ch brinsp =
     (case inspector_mem an brinsp of
        None \<Rightarrow> None
      | Some insp \<Rightarrow>
          if state insp \<noteq> SUSCAN_ASYNC_STATE_CREATED then Some (an, SU_FALSE)
          else
            (case PTR_LIST_APPEND_CHECK (inspector_list an) (ptr_list_grows ch) brinsp of
               (lst, hnd) \<Rightarrow>
                 if hnd = -1 then Some (an, -1)
                 else
                   let an1 = an\<lparr>inspector_list := lst,
                                inspector_mem := (inspector_mem an)(brinsp \<mapsto>
                                  insp\<lparr>state := SUSCAN_ASYNC_STATE_RUNNING\<rparr>)\<rparr>
                   in if \<not> push_task_ok ch
                      then Some (fst (suscan_analyzer_dispose_inspector_handle an1 hnd), -1)
                      else Some (an1\<lparr>worker_tasks := worker_tasks an1 @ [brinsp]\<rparr>, hnd)))"

text \<open>
  The end of \<open>suscan_analyzer_parse_inspector_msg\<close> after the \<open>switch\<close>: copy the inspector
  id when the request found an inspector, write the message to \<open>mq_out\<close>, return.
\<close>

definition parse_inspector_msg_reply ::
  "'ts suscan_env \<Rightarrow> ('det, 'nco, 'agc, 'pll, 'ts) suscan_analyzer \<Rightarrow> handler_choices \<Rightarrow>
     suscan_analyzer_inspector_msg \<Rightarrow> addr option \<Rightarrow>
     (('det, 'nco, 'agc, 'pll, 'ts) suscan_analyzer \<times> suscan_analyzer_inspector_msg \<times> bool) option" where
  "parse_inspector_msg_reply env an ch msg insp =
     (case (case insp of
              None \<Rightarrow> Some msg
            | Some a \<Rightarrow>
                (case inspector_mem an a of
                   None \<Rightarrow> None
                 | Some i \<Rightarrow> Some (msg\<lparr>msg_inspector_id := inspector_id (params i)\<rparr>))) of
        None \<Rightarrow> None
      | Some msg1 \<Rightarrow>
          (case suscan_mq_write (msg_mem an) (mq_out an)
                  (if malloc_ok ch then Some (msg_brk an) else None)
                  (SUSCAN_ANALYZER_MESSAGE_TYPE_INSPECTOR env) (Inspector_msg msg1) of
             None \<Rightarrow> None
           | Some (mem1, mq1, written) \<Rightarrow>
               Some (an\<lparr>msg_mem := mem1, mq_out := mq1,
                        msg_brk := (if malloc_ok ch then Suc (msg_brk an) else msg_brk an)\<rparr>,
                     msg1, written)))"

definition suscan_analyzer_parse_inspector_msg ::
  "('det, 'nco, 'agc, 'pll) sigutils \<Rightarrow> 'ts suscan_env \<Rightarrow>
     ('det, 'nco, 'agc, 'pll, 'ts) suscan_analyzer \<Rightarrow> handler_choices \<Rightarrow>
     suscan_analyzer_inspector_msg \<Rightarrow>
     (('det, 'nco, 'agc, 'pll, 'ts) suscan_analyzer \<times> suscan_analyzer_inspector_msg \<times> bool) option" where
  "suscan_analyzer_parse_inspector_msg su env an ch msg =
     (case kind msg of
        SUSCAN_ANALYZER_INSPECTOR_MSGKIND_OPEN \<Rightarrow>
          (case suscan_inspector_new su env an (calloc_ok ch) (channel msg) of
             (an1, None) \<Rightarrow> Some (an1, msg, False)
           | (an1, Some new) \<Rightarrow>
               (case suscan_analyzer_register_inspector an1 ch new of
                  None \<Rightarrow> None
                | Some (an2, hnd) \<Rightarrow>
                    if hnd = -1 then Some (suscan_inspector_destroy an2 new, msg, False)
                    else parse_inspector_msg_reply env an2 ch (msg\<lparr>handle := hnd\<rparr>) None))
      | SUSCAN_ANALYZER_INSPECTOR_MSGKIND_GET_INFO \<Rightarrow>
          (case suscan_analyzer_get_inspector an (handle msg) of
             None \<Rightarrow> None
           | Some None \<Rightarrow>
               parse_inspector_msg_reply env an ch
                 (msg\<lparr>kind := SUSCAN_ANALYZER_INSPECTOR_MSGKIND_WRONG_HANDLE\<rparr>) None
           | Some (Some a) \<Rightarrow>
               (case inspector_mem an a of
                  None \<Rightarrow> None
                | Some insp \<Rightarrow>
                    parse_inspector_msg_reply env an ch
                      (msg\<lparr>kind := SUSCAN_ANALYZER_INSPECTOR_MSGKIND_INFO,
                           msg_baud := \<lparr>fac = detector_baud su (fac_baud_det insp),
                                        nln = detector_baud su (nln_baud_det insp)\<rparr>\<rparr>)
                      (Some a)))
      | SUSCAN_ANALYZER_INSPECTOR_MSGKIND_GET_PARAMS \<Rightarrow>
          (case suscan_analyzer_get_inspector an (handle msg) of
             None \<Rightarrow> None
           | Some None \<Rightarrow>
               parse_inspector_msg_reply env an ch
                 (msg\<lparr>kind := SUSCAN_ANALYZER_INSPECTOR_MSGKIND_WRONG_HANDLE\<rparr>) None
           | Some (Some a) \<Rightarrow>
               (case inspector_mem an a of
                  None \<Rightarrow> None
                | Some insp \<Rightarrow>
                    parse_inspector_msg_reply env an ch
                      (msg\<lparr>kind := SUSCAN_ANALYZER_INSPECTOR_MSGKIND_PARAMS,
                           msg_params := params insp\<rparr>)
                      (Some a)))
      | SUSCAN_ANALYZER_INSPECTOR_MSGKIND_PARAMS \<Rightarrow>
          (case suscan_analyzer_get_inspector an (handle msg) of
             None \<Rightarrow> None
           | Some None \<Rightarrow>
               parse_inspector_msg_reply env an ch
                 (msg\<lparr>kind := SUSCAN_ANALYZER_INSPECTOR_MSGKIND_WRONG_HANDLE\<rparr>) None
           | Some (Some a) \<Rightarrow>
               (case inspector_mem an a of
                  None \<Rightarrow> None
                | Some insp \<Rightarrow>
                    let insp1 = insp\<lparr>params := msg_params msg\<rparr>;
                        fs = detector_samp_rate su (fac_baud_det insp1);
                        insp2 = (if baud (msg_params msg) > 0
                                 then insp1\<lparr>sym_period :=
                                        1 / SU_ABS2NORM_BAUD fs (baud (params insp1))\<rparr>
                                 else insp1\<lparr>sym_period := 0\<rparr>);
                        insp3 = insp2\<lparr>lo := su_ncqo_set_freq su (lo insp2)
                                         (SU_ABS2NORM_FREQ su fs (fc_off (msg_params msg)))\<rparr>;
                        insp4 = insp3\<lparr>phase :=
                                  exp (\<i> * complex_of_real (fc_phi (msg_params msg)))\<rparr>
                    in parse_inspector_msg_reply env
                         (an\<lparr>inspector_mem := (inspector_mem an)(a \<mapsto> insp4)\<rparr>) ch msg (Some a)))
      | SUSCAN_ANALYZER_INSPECTOR_MSGKIND_CLOSE \<Rightarrow>
          (case suscan_analyzer_get_inspector an (handle msg) of
             None \<Rightarrow> None
           | Some None \<Rightarrow>
               parse_inspector_msg_reply env an ch
                 (msg\<lparr>kind := SUSCAN_ANALYZER_INSPECTOR_MSGKIND_WRONG_HANDLE\<rparr>) None
           | Some (Some a) \<Rightarrow>
               (case inspector_mem an a of
                  None \<Rightarrow> None
                | Some insp \<Rightarrow>
                    let msg1 = msg\<lparr>msg_inspector_id := inspector_id (params insp)\<rparr>;
                        an1 = (if state insp = SUSCAN_ASYNC_STATE_HALTED
                               then suscan_inspector_destroy
                                      (fst (suscan_analyzer_dispose_inspector_handle an (handle msg))) a
                               else an\<lparr>inspector_mem := (inspector_mem an)(a \<mapsto>
                                         insp\<lparr>state := SUSCAN_ASYNC_STATE_HALTING\<rparr>)\<rparr>)
                    in parse_inspector_msg_reply env an1 ch msg1 None))
      | _ \<Rightarrow>
          parse_inspector_msg_reply env an ch
            (msg\<lparr>status := kind msg, kind := SUSCAN_ANALYZER_INSPECTOR_MSGKIND_WRONG_KIND\<rparr>) None)"

subsection \<open>Worker callback\<close>

text \<open>
  What the environment decides during one call of \<open>suscan_inspector_wk_cb\<close>: whether
  \<open>suscan_analyzer_sample_batch_msg_new\<close> succeeds, whether
  \<open>suscan_analyzer_sample_batch_msg_append_sample\<close> succeeds on a batch that holds \<open>n\<close>
  samples, and whether \<open>malloc\<close> gives \<open>suscan_mq_write\<close> a header.
\<close>

record callback_choices =
  batch_new_ok :: bool
  batch_append_ok :: "nat \<Rightarrow> bool"
  cb_malloc_ok :: bool

text \<open>
  Lines 262-276: the sampler was triggered.  The result is the batch and whether to go on
  (\<open>False\<close> is \<open>goto done\<close>).
\<close>

definition wk_cb_collect ::
  "callback_choices \<Rightarrow> ('det, 'nco, 'agc, 'pll, 'ts) suscan_inspector \<Rightarrow>
     suscan_analyzer_sample_batch_msg option \<Rightarrow>
     suscan_analyzer_sample_batch_msg option \<times> bool" where
  "wk_cb_collect cc insp batch_msg =
     (if sym_new_sample insp then
        (case (case batch_msg of
                 None \<Rightarrow>
                   if batch_new_ok cc
                   then Some \<lparr>batch_inspector_id = inspector_id (params insp), samples = []\<rparr>
                   else None
               | Some b \<Rightarrow> Some b) of
           None \<Rightarrow> (None, False)
         | Some b \<Rightarrow>
             if batch_append_ok cc (length (samples b))
             then (Some (b\<lparr>samples := samples b @ [sym_sampler_output insp]\<rparr>), True)
             else (Some b, False))
      else (batch_msg, True))"

text \<open>
  The \<open>while (got > 0)\<close> loop.  \<open>samp\<close> is the rest of the buffer and \<open>got\<close> its length,
  taken to fit the \<open>int\<close> parameter of \<open>suscan_inspector_feed_bulk\<close>.  The result is the
  inspector, the batch and whether the loop ended without \<open>goto done\<close>.
\<close>

partial_function (option) wk_cb_loop ::
  "('det, 'nco, 'agc, 'pll) sigutils \<Rightarrow> 'ts suscan_env \<Rightarrow> callback_choices \<Rightarrow>
     ('det, 'nco, 'agc, 'pll, 'ts) suscan_inspector \<Rightarrow> complex list \<Rightarrow>
     suscan_analyzer_sample_batch_msg option \<Rightarrow>
     (('det, 'nco, 'agc, 'pll, 'ts) suscan_inspector \<times>
      suscan_analyzer_sample_batch_msg option \<times> bool) option" where
  "wk_cb_loop su env cc insp samp batch_msg =
     (if length samp > 0 then
        (case suscan_inspector_feed_bulk su insp samp (int (length samp)) of
           None \<Rightarrow> None
         | Some (insp1, fed) \<Rightarrow>
             if \<not> fed \<ge> 0 then Some (insp1, batch_msg, False)
             else
               (case wk_cb_collect cc insp1 batch_msg of
                  (batch1, go_on) \<Rightarrow>
                    if \<not> go_on then Some (insp1, batch1, False)
                    else
                      wk_cb_loop su env cc
                        (insp1\<lparr>task_state :=
                           suscan_consumer_task_state_advance env (task_state insp1) fed\<rparr>)
                        (drop (nat fed) samp) batch1))
      else Some (insp, batch_msg, True))"

text \<open>
  The label \<open>done\<close>: a callback that will not restart halts the inspector and removes the
  consumer task.  Destroying a left-over batch changes nothing that is modelled.
\<close>

definition wk_cb_done ::
  "'ts suscan_env \<Rightarrow> ('det, 'nco, 'agc, 'pll, 'ts) suscan_analyzer \<Rightarrow> addr \<Rightarrow>
     ('det, 'nco, 'agc, 'pll, 'ts) suscan_inspector \<Rightarrow> bool \<Rightarrow>
     ('det, 'nco, 'agc, 'pll, 'ts) suscan_analyzer \<times> bool" where
  "wk_cb_done env an a insp restart =
     (let insp1 = (if \<not> restart
                   then insp\<lparr>state := SUSCAN_ASYNC_STATE_HALTED,
                             task_state := suscan_consumer_remove_task env (task_state insp)\<rparr>
                   else insp)
      in (an\<lparr>inspector_mem := (inspector_mem an)(a \<mapsto> insp1)\<rparr>, restart))"

text \<open>
  \<open>suscan_inspector_wk_cb\<close> for the inspector at address \<open>a\<close> (\<open>cb_private\<close>); the queue
  \<open>consumer->analyzer->mq_out\<close> is the analyzer's.  The result is the analyzer and the
  returned \<open>restart\<close>.
\<close>

definition suscan_inspector_wk_cb ::
  "('det, 'nco, 'agc, 'pll) sigutils \<Rightarrow> 'ts suscan_env \<Rightarrow>
     ('det, 'nco, 'agc, 'pll, 'ts) suscan_analyzer \<Rightarrow> callback_choices \<Rightarrow> addr \<Rightarrow>
     (('det, 'nco, 'agc, 'pll, 'ts) suscan_analyzer \<times> bool) option" where
  "suscan_inspector_wk_cb su env an cc a =
     (case inspector_mem an a of
        None \<Rightarrow> None
      | Some insp \<Rightarrow>
          let insp1 = (if task_state_consumer_is_null env (task_state insp)
                       then insp\<lparr>task_state :=
                              suscan_consumer_task_state_init env (task_state insp)\<rparr>
                       else insp)
          in
          if state insp1 = SUSCAN_ASYNC_STATE_HALTING then Some (wk_cb_done env an a insp1 False)
          else
            (case suscan_consumer_task_state_assert_samples env (task_state insp1) of
               (False, ts, samp) \<Rightarrow> Some (wk_cb_done env an a (insp1\<lparr>task_state := ts\<rparr>) False)
             | (True, ts, samp) \<Rightarrow>
                 (case wk_cb_loop su env cc (insp1\<lparr>task_state := ts\<rparr>) samp None of
                    None \<Rightarrow> None
                  | Some (insp2, batch_msg, False) \<Rightarrow> Some (wk_cb_done env an a insp2 False)
                  | Some (insp2, None, True) \<Rightarrow> Some (wk_cb_done env an a insp2 True)
                  | Some (insp2, Some b, True) \<Rightarrow>
                      (case suscan_mq_write (msg_mem an) (mq_out an)
                              (if cb_malloc_ok cc then Some (msg_brk an) else None)
                              (SUSCAN_ANALYZER_MESSAGE_TYPE_SAMPLES env) (Sample_batch_msg b) of
                         None \<Rightarrow> None
                       | Some (mem1, mq1, written) \<Rightarrow>
                           Some (wk_cb_done env
                                   (an\<lparr>msg_mem := mem1, mq_out := mq1,
                                       msg_brk := (if cb_malloc_ok cc then Suc (msg_brk an)
                                                   else msg_brk an)\<rparr>)
                                   a insp2 written)))))"

subsection \<open>Runs of the engine\<close>

text \<open>
  Modelled from the spec: the analyzer thread hands each control message to the handler,
  and the worker pool calls the callback of a queued task, keeps the task when the
  callback returns true and drops it otherwise.  \<open>Worker n\<close> runs the \<open>n\<close>-th queued task;
  there is nothing to run when the queue is shorter.
\<close>

datatype event =
    Control suscan_analyzer_inspector_msg handler_choices
  | Worker nat callback_choices

definition engine_step ::
  "('det, 'nco, 'agc, 'pll) sigutils \<Rightarrow> 'ts suscan_env \<Rightarrow>
     ('det, 'nco, 'agc, 'pll, 'ts) suscan_analyzer \<Rightarrow> event \<Rightarrow>
     ('det, 'nco, 'agc, 'pll, 'ts) suscan_analyzer option" where
  "engine_step su env an ev =
     (case ev of
        Control msg ch \<Rightarrow>
          (case suscan_analyzer_parse_inspector_msg su env an ch msg of
             None \<Rightarrow> None
           | Some (an1, msg1, ok) \<Rightarrow> Some an1)
      | Worker n cc \<Rightarrow>
          if n < length (worker_tasks an) then
            (case suscan_inspector_wk_cb su env an cc (worker_tasks an ! n) of
               None \<Rightarrow> None
             | Some (an1, restart) \<Rightarrow>
                 if restart then Some an1
                 else Some (an1\<lparr>worker_tasks :=
                              take n (worker_tasks an1) @ drop (Suc n) (worker_tasks an1)\<rparr>))
          else Some an)"

fun engine_run ::
  "('det, 'nco, 'agc, 'pll) sigutils \<Rightarrow> 'ts suscan_env \<Rightarrow>
     ('det, 'nco, 'agc, 'pll, 'ts) suscan_analyzer \<Rightarrow> event list \<Rightarrow>
     ('det, 'nco, 'agc, 'pll, 'ts) suscan_analyzer option" where
  "engine_run su env an [] = Some an"
| "engine_run su env an (ev # evs) =
     (case engine_step su env an ev of
        None \<Rightarrow> None
      | Some an1 \<Rightarrow> engine_run su env an1 evs)"

text \<open>The order of the lifecycle states.\<close>

fun state_rank :: "suscan_async_state \<Rightarrow> nat" where
  "state_rank SUSCAN_ASYNC_STATE_CREATED = 0"
| "state_rank SUSCAN_ASYNC_STATE_RUNNING = 1"
| "state_rank SUSCAN_ASYNC_STATE_HALTING = 2"
| "state_rank SUSCAN_ASYNC_STATE_HALTED = 3"

text \<open>
  A well-formed analyzer: the output queue is a well-formed list in \<open>msg_mem\<close>, the
  allocators hand out unused addresses, and the table and the task queue point to
  allocated inspectors.
\<close>

definition analyzer_wf :: "('det, 'nco, 'agc, 'pll, 'ts) suscan_analyzer \<Rightarrow> bool" where
  "analyzer_wf an \<longleftrightarrow>
     (\<exists>as xs. mq_holds (msg_mem an) (mq_out an) as xs) \<and>
     (\<forall>a. msg_mem an a \<noteq> None \<longrightarrow> a < msg_brk an) \<and>
     (\<forall>a. inspector_mem an a \<noteq> None \<longrightarrow> a < insp_brk an) \<and>
     (\<forall>a. Some a \<in> set (inspector_list an) \<longrightarrow> inspector_mem an a \<noteq> None) \<and>
     (\<forall>a. a \<in> set (worker_tasks an) \<longrightarrow> inspector_mem an a \<noteq> None)"

text \<open>Examples: an environment, an empty analyzer, and choices where everything succeeds.\<close>

definition env_plain :: "(bool \<times> complex list) suscan_env" where
  "env_plain =
     \<lparr>SUSCAN_SOURCE_DEFAULT_BUFSIZ = 512,
      SUSCAN_ANALYZER_MESSAGE_TYPE_INSPECTOR = 6,
      SUSCAN_ANALYZER_MESSAGE_TYPE_SAMPLES = 7,
      task_state_zeroed = (False, []),
      task_state_consumer_is_null = (\<lambda>ts. \<not> fst ts),
      suscan_consumer_task_state_init = (\<lambda>ts. (True, [1, 1, 1])),
      suscan_consumer_task_state_assert_samples = (\<lambda>ts. (snd ts \<noteq> [], ts, snd ts)),
      suscan_consumer_task_state_advance = (\<lambda>ts n. (fst ts, drop (nat n) (snd ts))),
      suscan_consumer_remove_task = (\<lambda>ts. ts)\<rparr>"

definition analyzer_plain ::
  "(complex, real, unit, complex, bool \<times> complex list) suscan_analyzer" where
  "analyzer_plain =
     \<lparr>inspector_list = [], source_samp_rate = 8, mq_out = suscan_mq_init,
      inspector_mem = Map.empty, msg_mem = Map.empty, insp_brk = 0, msg_brk = 0,
      worker_tasks = []\<rparr>"

definition all_ok :: handler_choices where
  "all_ok = \<lparr>calloc_ok = True, ptr_list_grows = True, push_task_ok = True, malloc_ok = True\<rparr>"

definition cb_all_ok :: callback_choices where
  "cb_all_ok = \<lparr>batch_new_ok = True, batch_append_ok = (\<lambda>n. True), cb_malloc_ok = True\<rparr>"

definition request ::
  "suscan_analyzer_inspector_msgkind \<Rightarrow> u32 \<Rightarrow> int \<Rightarrow> suscan_analyzer_inspector_msg" where
  "request k rid hnd =
     \<lparr>kind = k, req_id = rid, handle = hnd, status = MSGKIND_OTHER 0,
      channel = \<lparr>fc = 100000, bw = 10000\<rparr>,
      msg_params = \<lparr>inspector_id = 7, fc_ctrl = SUSCAN_INSPECTOR_CARRIER_CONTROL_MANUAL,
                    fc_off = 0, fc_phi = 0, baud = 2, params_sym_phase = 0\<rparr>,
      msg_baud = \<lparr>fac = 0, nln = 0\<rparr>, msg_inspector_id = 0\<rparr>"

text \<open>An analyzer that holds one Running inspector, at handle 0, with its task queued.\<close>

definition analyzer_one ::
  "(complex, real, unit, complex, bool \<times> complex list) suscan_analyzer" where
  "analyzer_one =
     analyzer_plain\<lparr>inspector_list := [Some 0], inspector_mem := [0 \<mapsto> insp_plain],
                    insp_brk := 1, worker_tasks := [0]\<rparr>"

text \<open>An analyzer that holds one inspector as \<open>suscan_inspector_new\<close> leaves it: Created, in no table.\<close>

definition analyzer_created ::
  "(complex, real, unit, complex, bool \<times> complex list) suscan_analyzer" where
  "analyzer_created =
     analyzer_plain\<lparr>inspector_mem := [0 \<mapsto> insp_plain\<lparr>state := SUSCAN_ASYNC_STATE_CREATED\<rparr>],
                    insp_brk := 1\<rparr>"

subsection \<open>What one operation may do to the lifecycle states\<close>

text \<open>
  A control message of kind \<open>k\<close> took \<open>mem\<close> to \<open>mem'\<close>: every inspector is still there, in
  the state it had or, for CLOSE, moved from Running to Halting; an inspector that was
  not there before is Running and the message was an OPEN.
\<close>

definition handler_moves ::
  "suscan_analyzer_inspector_msgkind \<Rightarrow>
     (addr \<Rightarrow> ('det, 'nco, 'agc, 'pll, 'ts) suscan_inspector option) \<Rightarrow>
     (addr \<Rightarrow> ('det, 'nco, 'agc, 'pll, 'ts) suscan_inspector option) \<Rightarrow> bool" where
  "handler_moves k mem mem' \<longleftrightarrow>
     (\<forall>a i. mem a = Some i \<longrightarrow>
        (\<exists>i'. mem' a = Some i' \<and>
           (state i' = state i \<or>
            (state i = SUSCAN_ASYNC_STATE_RUNNING \<and> state i' = SUSCAN_ASYNC_STATE_HALTING \<and>
             k = SUSCAN_ANALYZER_INSPECTOR_MSGKIND_CLOSE)))) \<and>
     (\<forall>a i'. mem a = None \<and> mem' a = Some i' \<longrightarrow>
        state i' = SUSCAN_ASYNC_STATE_RUNNING \<and> k = SUSCAN_ANALYZER_INSPECTOR_MSGKIND_OPEN)"

text \<open>
  A worker callback took \<open>mem\<close> to \<open>mem'\<close>: every inspector is still there, in the state
  it had or Halted, and none is new.
\<close>

definition callback_moves ::
  "(addr \<Rightarrow> ('det, 'nco, 'agc, 'pll, 'ts) suscan_inspector option) \<Rightarrow>
     (addr \<Rightarrow> ('det, 'nco, 'agc, 'pll, 'ts) suscan_inspector option) \<Rightarrow> bool" where
  "callback_moves mem mem' \<longleftrightarrow>
     (\<forall>a i. mem a = Some i \<longrightarrow>
        (\<exists>i'. mem' a = Some i' \<and>
           (state i' = state i \<or> state i' = SUSCAN_ASYNC_STATE_HALTED))) \<and>
     (\<forall>a. mem a = None \<longrightarrow> mem' a = None)"

definition step_moves ::
  "event \<Rightarrow> (addr \<Rightarrow> ('det, 'nco, 'agc, 'pll, 'ts) suscan_inspector option) \<Rightarrow>
     (addr \<Rightarrow> ('det, 'nco, 'agc, 'pll, 'ts) suscan_inspector option) \<Rightarrow> bool" where
  "step_moves ev mem mem' \<longleftrightarrow>
     (case ev of
        Control msg ch \<Rightarrow> handler_moves (kind msg) mem mem'
      | Worker n cc \<Rightarrow> callback_moves mem mem')"

section \<open>Message queue: proofs\<close>

subsection \<open>Paths\<close>

lemma path_append:
  "path mem p (xs @ ys) q \<longleftrightarrow> (\<exists>r. path mem p xs r \<and> path mem r ys q)"
  by (induction xs arbitrary: p) (auto split: option.splits)

lemma path_upd_notin:
  "a \<notin> set as \<Longrightarrow> path (mem(a := v)) p as q = path mem p as q"
  by (induction as arbitrary: p) (auto split: option.splits)

lemma path_None: "path mem None as q \<longleftrightarrow> as = [] \<and> q = None"
  by (cases as) auto

lemma path_unique:
  "path mem p as None \<Longrightarrow> path mem p bs None \<Longrightarrow> as = bs"
proof (induction as arbitrary: p bs)
  case Nil
  then show ?case by (cases bs) auto
next
  case (Cons a as)
  then show ?case by (cases bs) (auto split: option.splits)
qed

lemma path_next_notin:
  assumes "mem a = Some m" and "path mem (msg_next m) bs None"
  shows "a \<notin> set bs"
proof
  assume "a \<in> set bs"
  then obtain xs ys where bs: "bs = xs @ a # ys"
    by (auto simp: in_set_conv_decomp)
  with assms(2) obtain r where "path mem r (a # ys) None"
    by (auto simp: path_append)
  with assms(1) have "path mem (msg_next m) ys None"
    by auto
  with assms(2) have "bs = ys"
    by (rule path_unique)
  with bs show False by simp
qed

lemma path_distinct: "path mem p as None \<Longrightarrow> distinct as"
  by (induction as arbitrary: p) (auto split: option.splits dest: path_next_notin)

lemma path_allocated: "path mem p as q \<Longrightarrow> a \<in> set as \<Longrightarrow> mem a \<noteq> None"
  by (induction as arbitrary: p) (auto split: option.splits)

lemma path_last_next:
  "path mem p as None \<Longrightarrow> as \<noteq> [] \<Longrightarrow> \<exists>m. mem (last as) = Some m \<and> msg_next m = None"
  by (induction as arbitrary: p) (auto split: option.splits if_splits)

lemma path_snoc:
  assumes "path mem p as None" and "as \<noteq> []" and "mem (last as) = Some mt"
    and "msg \<notin> set as" and "mem msg = Some m" and "msg_next m = None"
  shows "path (mem(last as \<mapsto> mt\<lparr>msg_next := Some msg\<rparr>)) p (as @ [msg]) None"
proof -
  let ?mem = "mem(last as \<mapsto> mt\<lparr>msg_next := Some msg\<rparr>)"
  from assms(2) obtain xs where as: "as = xs @ [last as]"
    by (metis append_butlast_last_id)
  from assms(1) have d: "distinct as" by (rule path_distinct)
  with as have notin: "last as \<notin> set xs"
    by (metis distinct_append disjoint_iff list.set_intros(1))
  from assms(1) as obtain r where r: "path mem p xs r" "path mem r [last as] None"
    by (metis path_append)
  from r(1) notin have 1: "path ?mem p xs r"
    by (simp add: path_upd_notin)
  from r(2) have r_eq: "r = Some (last as)" by simp
  from assms(4) assms(2) have neq: "msg \<noteq> last as" by auto
  with assms(5,6) have 2: "path ?mem r [last as, msg] None"
    by (simp add: r_eq)
  have "path ?mem p (xs @ [last as, msg]) None"
    using 1 2 by (auto simp: path_append)
  with as show ?thesis by (metis append.assoc append_Cons append_Nil)
qed

lemma contents_upd_notin:
  "a \<notin> set as \<Longrightarrow> contents (mem(a := v)) as = contents mem as"
  by (simp add: contents_def)

lemma contents_next:
  "mem a = Some m \<Longrightarrow> contents (mem(a \<mapsto> m\<lparr>msg_next := n\<rparr>)) as = contents mem as"
  by (auto simp: contents_def)

lemma length_contents: "length (contents mem as) = length as"
  by (simp add: contents_def)

lemma contents_Cons:
  "contents mem (a # as) = map_option (\<lambda>m. (msg_type m, msg_private m)) (mem a) # contents mem as"
  by (simp add: contents_def)

lemma contents_append: "contents mem (as @ bs) = contents mem as @ contents mem bs"
  by (simp add: contents_def)

subsection \<open>What each queue primitive does to the list\<close>

lemma suscan_mq_push_holds:
  assumes "mq_holds mem mq as xs" and "msg \<notin> set as"
    and "mem msg = Some m" and "msg_next m = None"
  shows "\<exists>mem' mq'. suscan_mq_push mem mq msg = Some (mem', mq') \<and>
           mq_holds mem' mq' (as @ [msg]) (xs @ [(msg_type m, msg_private m)])"
proof (cases "as = []")
  case True
  with assms show ?thesis
    by (auto simp: mq_holds_def mq_wf_def suscan_mq_push_def contents_def path_None)
next
  case False
  from assms(1) have p: "path mem (head mq) as None" and t: "tail mq = Some (last as)"
    and c: "contents mem as = map Some xs"
    using False by (auto simp: mq_holds_def mq_wf_def)
  from path_last_next [OF p False] obtain mt where mt: "mem (last as) = Some mt"
    by blast
  let ?mem = "mem(last as \<mapsto> mt\<lparr>msg_next := Some msg\<rparr>)"
  have neq: "msg \<noteq> last as" using assms(2) False by auto
  have h: "head mq \<noteq> None" using p False by (cases as) auto
  have run: "suscan_mq_push mem mq msg = Some (?mem, mq\<lparr>tail := Some msg\<rparr>)"
    using t mt h by (auto simp: suscan_mq_push_def set_next_def Let_def)
  have p': "path ?mem (head mq) (as @ [msg]) None"
    using p False mt assms(2,3,4) by (rule path_snoc)
  have "contents ?mem (as @ [msg]) = contents mem (as @ [msg])"
    using mt by (rule contents_next)
  then have c': "contents ?mem (as @ [msg]) = map Some (xs @ [(msg_type m, msg_private m)])"
    using c assms(3) by (simp add: contents_append) (simp add: contents_def)
  show ?thesis
    using run p' c' by (simp add: mq_holds_def mq_wf_def)
qed

lemma suscan_mq_push_front_holds:
  assumes "mq_holds mem mq as xs" and "msg \<notin> set as" and "mem msg = Some m"
  shows "\<exists>mem' mq'. suscan_mq_push_front mem mq msg = Some (mem', mq') \<and>
           mq_holds mem' mq' (msg # as) ((msg_type m, msg_private m) # xs)"
proof -
  from assms(1) have p: "path mem (head mq) as None"
    and t: "tail mq = (if as = [] then None else Some (last as))"
    and c: "contents mem as = map Some xs"
    by (auto simp: mq_holds_def mq_wf_def)
  let ?mem = "mem(msg \<mapsto> m\<lparr>msg_next := head mq\<rparr>)"
  let ?mq = "if as = [] then mq\<lparr>head := Some msg, tail := Some msg\<rparr> else mq\<lparr>head := Some msg\<rparr>"
  have run: "suscan_mq_push_front mem mq msg = Some (?mem, ?mq)"
    using assms(3) t by (simp add: suscan_mq_push_front_def set_next_def)
  have "path ?mem (head mq) as None"
    using p assms(2) by (simp add: path_upd_notin)
  then have p': "path ?mem (Some msg) (msg # as) None" by simp
  have 1: "contents ?mem (msg # as) = contents mem (msg # as)"
    using assms(3) by (rule contents_next)
  have 2: "contents mem (msg # as) = Some (msg_type m, msg_private m) # contents mem as"
    using assms(3) by (simp add: contents_def)
  have c': "contents ?mem (msg # as) = map Some ((msg_type m, msg_private m) # xs)"
    unfolding 1 2 c by simp
  show ?thesis
    using run p' c' t by (auto simp: mq_holds_def mq_wf_def)
qed

lemma suscan_mq_pop_holds:
  assumes "mq_holds mem mq as xs"
  shows "\<exists>mem' mq'. suscan_mq_pop mem mq = Some (mem', mq', if as = [] then None else Some (hd as)) \<and>
           mq_holds mem' mq' (tl as) (tl xs) \<and>
           (as \<noteq> [] \<longrightarrow> map_option (\<lambda>m. (msg_type m, msg_private m)) (mem' (hd as)) = Some (hd xs))"
proof (cases as)
  case Nil
  with assms show ?thesis
    by (auto simp: mq_holds_def mq_wf_def suscan_mq_pop_def contents_def)
next
  case (Cons a bs)
  from assms Cons obtain m where m: "mem a = Some m" and h: "head mq = Some a"
    and p: "path mem (msg_next m) bs None" and t: "tail mq = Some (last (a # bs))"
    and c: "contents mem (a # bs) = map Some xs"
    by (auto simp: mq_holds_def mq_wf_def split: option.splits)
  from m p have notin: "a \<notin> set bs" by (rule path_next_notin)
  let ?mem = "mem(a \<mapsto> m\<lparr>msg_next := None\<rparr>)"
  let ?mq = "if msg_next m = None then mq\<lparr>head := None, tail := None\<rparr> else mq\<lparr>head := msg_next m\<rparr>"
  have run: "suscan_mq_pop mem mq = Some (?mem, ?mq, Some a)"
    using m h by (simp add: suscan_mq_pop_def set_next_def Let_def)
  have p': "path ?mem (msg_next m) bs None"
    using p notin by (simp add: path_upd_notin)
  have e: "msg_next m = None \<longleftrightarrow> bs = []"
    using p by (cases bs) (auto simp: path_None)
  have wf: "mq_wf ?mem ?mq bs"
    using p' e t by (auto simp: mq_wf_def)
  obtain y ys where xs: "xs = y # ys"
    using c by (cases xs) (auto simp: contents_def)
  have 1: "contents ?mem bs = contents mem bs"
    using notin by (simp add: contents_upd_notin)
  have c': "contents ?mem bs = map Some ys"
    using c xs unfolding 1 by (simp add: contents_Cons)
  have "map_option (\<lambda>m. (msg_type m, msg_private m)) (?mem a) = Some y"
    using c xs m by (simp add: contents_Cons)
  then show ?thesis
    using run wf c' Cons xs by (simp add: mq_holds_def)
qed


lemma path_mid:
  "path mem p (pre @ a # post) None \<longleftrightarrow>
     (\<exists>m. mem a = Some m \<and> path mem p pre (Some a) \<and> path mem (msg_next m) post None)"
  by (auto simp: path_append split: option.splits)

lemma pop_w_type_loop_path:
  assumes "path mem this (pre @ post) None"
    and "\<forall>a\<in>set pre. \<forall>m. mem a = Some m \<longrightarrow> msg_type m \<noteq> ty"
    and "post = [] \<or> (\<exists>m. mem (hd post) = Some m \<and> msg_type m = ty)"
  shows "pop_w_type_loop mem ty prev this =
           Some (if pre = [] then prev else Some (last pre),
                 if post = [] then None else Some (hd post))"
  using assms
proof (induction pre arbitrary: prev this)
  case Nil
  show ?case
  proof (cases post)
    case Nil
    with Nil.prems show ?thesis
      by (subst pop_w_type_loop.simps) (simp add: path_None)
  next
    case (Cons b bs)
    with Nil.prems show ?thesis
      by (subst pop_w_type_loop.simps) (auto split: option.splits)
  qed
next
  case (Cons c pre)
  from Cons.prems(1) obtain m where m: "this = Some c" "mem c = Some m"
    and p: "path mem (msg_next m) (pre @ post) None"
    by (auto split: option.splits)
  from Cons.prems(2) m have ne: "msg_type m \<noteq> ty" by simp
  have "pop_w_type_loop mem ty (Some c) (msg_next m) =
          Some (if pre = [] then Some c else Some (last pre),
                if post = [] then None else Some (hd post))"
    using p Cons.prems(2,3) by (intro Cons.IH) auto
  then show ?case
    using m ne by (subst pop_w_type_loop.simps) simp
qed

lemma suscan_mq_pop_w_type_found:
  assumes "mq_holds mem mq (pre @ a # post) (xpre @ x # xpost)"
    and "length pre = length xpre"
    and "\<forall>y\<in>set xpre. fst y \<noteq> ty" and "fst x = ty"
  shows "\<exists>mem' mq'. suscan_mq_pop_w_type mem mq ty = Some (mem', mq', Some a) \<and>
           mq_holds mem' mq' (pre @ post) (xpre @ xpost) \<and>
           map_option (\<lambda>m. (msg_type m, msg_private m)) (mem' a) = Some x"
proof -
  let ?as = "pre @ a # post"
  from assms(1) have p: "path mem (head mq) ?as None" and t: "tail mq = Some (last (a # post))"
    and c: "contents mem ?as = map Some (xpre @ x # xpost)"
    by (auto simp: mq_holds_def mq_wf_def)
  from assms(2) have "length (contents mem pre) = length (map Some xpre)"
    by (simp add: length_contents)
  with c have cpre: "contents mem pre = map Some xpre"
    and ca: "map_option (\<lambda>m. (msg_type m, msg_private m)) (mem a) = Some x"
    and cpost: "contents mem post = map Some xpost"
    by (simp_all add: contents_append contents_Cons)
  from p obtain m where m: "mem a = Some m" and p1: "path mem (head mq) pre (Some a)"
    and p2: "path mem (msg_next m) post None"
    by (auto simp: path_mid)
  from ca m assms(4) have ty: "msg_type m = ty" by auto
  have pre_ty: "\<forall>b\<in>set pre. \<forall>mb. mem b = Some mb \<longrightarrow> msg_type mb \<noteq> ty"
  proof (intro ballI allI impI)
    fix b mb assume b: "b \<in> set pre" "mem b = Some mb"
    then obtain i where i: "i < length pre" "pre ! i = b"
      by (auto simp: in_set_conv_nth)
    with cpre b(2) have "xpre ! i = (msg_type mb, msg_private mb)"
      using assms(2) by (auto simp: contents_def list_eq_iff_nth_eq)
    with i assms(2,3) show "msg_type mb \<noteq> ty"
      by (metis fst_conv nth_mem)
  qed
  have loop: "pop_w_type_loop mem ty None (head mq) =
                Some (if pre = [] then None else Some (last pre), Some a)"
    using pop_w_type_loop_path [of mem "head mq" pre "a # post" ty None] p pre_ty m ty
    by simp
  from p have d: "distinct ?as" by (rule path_distinct)
  have tail_eq: "Some a = tail mq \<longleftrightarrow> post = []"
    using t d by (cases post rule: rev_cases) auto
  show ?thesis
  proof (cases "pre = []")
    case True
    with p1 have h: "head mq = Some a" by simp
    let ?mem = "mem(a \<mapsto> m\<lparr>msg_next := None\<rparr>)"
    let ?mq = "if post = [] then mq\<lparr>head := msg_next m, tail := None\<rparr> else mq\<lparr>head := msg_next m\<rparr>"
    have run: "suscan_mq_pop_w_type mem mq ty = Some (?mem, ?mq, Some a)"
      using loop True m tail_eq
      by (auto simp: suscan_mq_pop_w_type_def set_next_def Let_def)
    from d have notin: "a \<notin> set post" by simp
    then have p': "path ?mem (msg_next m) post None"
      using p2 by (simp add: path_upd_notin)
    have wf: "mq_wf ?mem ?mq post"
      using p' t by (auto simp: mq_wf_def)
    have c': "contents ?mem post = map Some xpost"
      using notin cpost by (simp add: contents_upd_notin)
    have "map_option (\<lambda>m. (msg_type m, msg_private m)) (?mem a) = Some x"
      using ca m by simp
    with run wf c' True assms(2) show ?thesis
      by (simp add: mq_holds_def)
  next
    case False
    then obtain qs l where pre: "pre = qs @ [l]"
      by (cases pre rule: rev_cases) auto
    from p1 pre obtain ml where ml: "mem l = Some ml" "msg_next ml = Some a"
      and q1: "path mem (head mq) qs (Some l)"
      by (auto simp: path_append split: option.splits)
    from d pre have l_notin: "l \<notin> set qs" "l \<notin> set post" "l \<noteq> a"
      and a_notin: "a \<notin> set qs" "a \<notin> set post"
      by auto
    let ?mem1 = "mem(l \<mapsto> ml\<lparr>msg_next := msg_next m\<rparr>)"
    let ?mem2 = "?mem1(a \<mapsto> m\<lparr>msg_next := None\<rparr>)"
    let ?mq = "if post = [] then mq\<lparr>tail := Some l\<rparr> else mq"
    have run: "suscan_mq_pop_w_type mem mq ty = Some (?mem2, ?mq, Some a)"
      using loop False pre m ml l_notin(3) tail_eq
      by (auto simp: suscan_mq_pop_w_type_def set_next_def Let_def)
    have r1: "path ?mem2 (head mq) qs (Some l)"
      using q1 l_notin(1) a_notin(1) by (simp add: path_upd_notin)
    have r2: "path ?mem2 (msg_next m) post None"
      using p2 l_notin(2) a_notin(2) by (simp add: path_upd_notin)
    have "path ?mem2 (head mq) (qs @ l # post) None"
      using r1 r2 l_notin(3) by (auto simp: path_mid)
    then have wf: "mq_wf ?mem2 ?mq (pre @ post)"
      using t pre by (auto simp: mq_wf_def)
    have "contents ?mem1 (pre @ post) = contents mem (pre @ post)"
      using ml(1) by (rule contents_next)
    moreover have "contents ?mem2 (pre @ post) = contents ?mem1 (pre @ post)"
      using a_notin pre l_notin(3) by (intro contents_upd_notin) auto
    ultimately have c': "contents ?mem2 (pre @ post) = map Some (xpre @ xpost)"
      using cpre cpost by (simp add: contents_append)
    have "map_option (\<lambda>m. (msg_type m, msg_private m)) (?mem2 a) = Some x"
      using ca m by simp
    with run wf c' show ?thesis
      by (simp add: mq_holds_def)
  qed
qed

lemma suscan_mq_pop_w_type_absent:
  assumes "mq_holds mem mq as xs" and "\<forall>y\<in>set xs. fst y \<noteq> ty"
  shows "suscan_mq_pop_w_type mem mq ty = Some (mem, mq, None)"
proof -
  from assms(1) have p: "path mem (head mq) as None" and c: "contents mem as = map Some xs"
    by (auto simp: mq_holds_def mq_wf_def)
  have "\<forall>b\<in>set as. \<forall>mb. mem b = Some mb \<longrightarrow> msg_type mb \<noteq> ty"
  proof (intro ballI allI impI)
    fix b mb assume b: "b \<in> set as" "mem b = Some mb"
    then obtain i where i: "i < length as" "as ! i = b"
      by (auto simp: in_set_conv_nth)
    from c have len: "length as = length xs"
      by (metis contents_def length_map)
    with c i b(2) have "xs ! i = (msg_type mb, msg_private mb)"
      by (auto simp: contents_def list_eq_iff_nth_eq)
    with i len assms(2) show "msg_type mb \<noteq> ty"
      by (metis fst_conv nth_mem)
  qed
  with p have "pop_w_type_loop mem ty None (head mq) =
                 Some (if as = [] then None else Some (last as), None)"
    using pop_w_type_loop_path [of mem "head mq" as "[]" ty None] by simp
  then show ?thesis
    by (simp add: suscan_mq_pop_w_type_def)
qed


lemma mq_holds_allocated: "mq_holds mem mq as xs \<Longrightarrow> set as \<subseteq> dom mem"
  by (auto simp: mq_holds_def mq_wf_def dest: path_allocated)

lemma mq_holds_upd_notin:
  "a \<notin> set as \<Longrightarrow> mq_holds (mem(a := v)) mq as xs = mq_holds mem mq as xs"
  by (simp add: mq_holds_def mq_wf_def path_upd_notin contents_upd_notin)

lemma mq_holds_length: "mq_holds mem mq as xs \<Longrightarrow> length as = length xs"
  by (metis mq_holds_def length_contents length_map)

lemma mq_holds_distinct: "mq_holds mem mq as xs \<Longrightarrow> distinct as"
  by (auto simp: mq_holds_def mq_wf_def dest: path_distinct)

subsection \<open>Writes and reads\<close>

lemma suscan_mq_write_holds:
  assumes "mq_holds mem mq as xs" and "a \<notin> dom mem"
  shows "\<exists>mem' mq'. suscan_mq_write mem mq (Some a) ty priv = Some (mem', mq', True) \<and>
           mq_holds mem' mq' (as @ [a]) (xs @ [(ty, priv)]) \<and> dom mem' = insert a (dom mem)"
proof -
  let ?m = "\<lparr>msg_type = ty, msg_private = priv, msg_next = None\<rparr>"
  let ?mem = "mem(a \<mapsto> ?m)"
  from assms have notin: "a \<notin> set as"
    using mq_holds_allocated by blast
  then have "mq_holds ?mem mq as xs"
    using assms(1) by (simp add: mq_holds_upd_notin)
  from suscan_mq_push_holds [OF this notin, of ?m]
  obtain mem' mq' where push: "suscan_mq_push ?mem mq a = Some (mem', mq')"
    and holds: "mq_holds mem' mq' (as @ [a]) (xs @ [(ty, priv)])"
    by auto
  have "dom mem' = insert a (dom mem)"
    using push by (auto simp: suscan_mq_push_def set_next_def Let_def split: option.splits if_splits)
  with push holds show ?thesis
    by (simp add: suscan_mq_write_def suscan_msg_new_def suscan_mq_write_msg_def)
qed

lemma suscan_mq_write_urgent_holds:
  assumes "mq_holds mem mq as xs" and "a \<notin> dom mem"
  shows "\<exists>mem' mq'. suscan_mq_write_urgent mem mq (Some a) ty priv = Some (mem', mq', True) \<and>
           mq_holds mem' mq' (a # as) ((ty, priv) # xs) \<and> dom mem' = insert a (dom mem)"
proof -
  let ?m = "\<lparr>msg_type = ty, msg_private = priv, msg_next = None\<rparr>"
  let ?mem = "mem(a \<mapsto> ?m)"
  from assms have notin: "a \<notin> set as"
    using mq_holds_allocated by blast
  then have "mq_holds ?mem mq as xs"
    using assms(1) by (simp add: mq_holds_upd_notin)
  from suscan_mq_push_front_holds [OF this notin, of ?m]
  obtain mem' mq' where push: "suscan_mq_push_front ?mem mq a = Some (mem', mq')"
    and holds: "mq_holds mem' mq' (a # as) ((ty, priv) # xs)"
    by auto
  have "dom mem' = insert a (dom mem)"
    using push by (auto simp: suscan_mq_push_front_def set_next_def Let_def split: option.splits if_splits)
  with push holds show ?thesis
    by (simp add: suscan_mq_write_urgent_def suscan_msg_new_def suscan_mq_write_msg_urgent_def)
qed

lemma suscan_mq_write_failed:
  "suscan_mq_write mem mq None ty priv = Some (mem, mq, False)"
  "suscan_mq_write_urgent mem mq None ty priv = Some (mem, mq, False)"
  by (simp_all add: suscan_mq_write_def suscan_mq_write_urgent_def suscan_msg_new_def)

lemma run_writes_holds:
  assumes "mq_holds mem mq as xs" and "fresh_allocs (dom mem) cs"
  shows "\<exists>mem' mq' as'. run_writes mem mq cs = Some (mem', mq') \<and>
           mq_holds mem' mq' as' (rev (urgent_written cs) @ xs @ normal_written cs)"
  using assms
proof (induction cs arbitrary: mem mq as xs)
  case Nil
  then show ?case by auto
next
  case (Cons c cs)
  show ?case
  proof (cases c)
    case (Write ty priv alloc)
    show ?thesis
    proof (cases alloc)
      case None
      with Cons Write show ?thesis
        by (simp add: suscan_mq_write_failed)
    next
      case (Some a)
      with Cons.prems Write have a: "a \<notin> dom mem" and f: "fresh_allocs (insert a (dom mem)) cs"
        by auto
      from suscan_mq_write_holds [OF Cons.prems(1) a, of ty priv]
      obtain mem1 mq1 where w: "suscan_mq_write mem mq (Some a) ty priv = Some (mem1, mq1, True)"
        and h: "mq_holds mem1 mq1 (as @ [a]) (xs @ [(ty, priv)])"
        and d: "dom mem1 = insert a (dom mem)"
        by blast
      from Cons.IH [OF h] f d
      obtain mem' mq' as' where "run_writes mem1 mq1 cs = Some (mem', mq')"
        "mq_holds mem' mq' as' (rev (urgent_written cs) @ (xs @ [(ty, priv)]) @ normal_written cs)"
        by auto
      with w Write Some show ?thesis by auto
    qed
  next
    case (Write_urgent ty priv alloc)
    show ?thesis
    proof (cases alloc)
      case None
      with Cons Write_urgent show ?thesis
        by (simp add: suscan_mq_write_failed)
    next
      case (Some a)
      with Cons.prems Write_urgent have a: "a \<notin> dom mem"
        and f: "fresh_allocs (insert a (dom mem)) cs"
        by auto
      from suscan_mq_write_urgent_holds [OF Cons.prems(1) a, of ty priv]
      obtain mem1 mq1 where w: "suscan_mq_write_urgent mem mq (Some a) ty priv = Some (mem1, mq1, True)"
        and h: "mq_holds mem1 mq1 (a # as) ((ty, priv) # xs)"
        and d: "dom mem1 = insert a (dom mem)"
        by blast
      from Cons.IH [OF h] f d
      obtain mem' mq' as' where "run_writes mem1 mq1 cs = Some (mem', mq')"
        "mq_holds mem' mq' as' (rev (urgent_written cs) @ ((ty, priv) # xs) @ normal_written cs)"
        by auto
      with w Write_urgent Some show ?thesis by auto
    qed
  qed
qed

lemma suscan_mq_read_holds:
  assumes "mq_holds mem mq as (x # xs)"
  shows "\<exists>mem' mq'. suscan_mq_read mem mq (Some t0) = Some (mem', mq', snd x, Some (fst x)) \<and>
           mq_holds mem' mq' (tl as) xs"
proof -
  from assms have ne: "as \<noteq> []"
    using mq_holds_length by fastforce
  from suscan_mq_pop_holds [OF assms] ne
  obtain mem1 mq1 where pop: "suscan_mq_pop mem mq = Some (mem1, mq1, Some (hd as))"
    and h: "mq_holds mem1 mq1 (tl as) xs"
    and c: "map_option (\<lambda>m. (msg_type m, msg_private m)) (mem1 (hd as)) = Some x"
    by auto
  from c obtain m where m: "mem1 (hd as) = Some m" "x = (msg_type m, msg_private m)"
    by auto
  from assms ne have "hd as \<notin> set (tl as)"
    using mq_holds_distinct [OF assms] by (cases as) auto
  then have "mq_holds (mem1(hd as := None)) mq1 (tl as) xs"
    using h by (simp add: mq_holds_upd_notin)
  with pop m show ?thesis
    by (simp add: suscan_mq_read_def suscan_mq_read_internal_def
        suscan_mq_read_msg_internal_def suscan_msg_destroy_def suscan_mq_return_msg_def)
qed

lemma read_n_holds:
  assumes "mq_holds mem mq as xs"
  shows "\<exists>mem' mq'. read_n (Some t0) (length xs) mem mq = Some (mem', mq', map snd xs) \<and>
           mq_holds mem' mq' [] []"
  using assms
proof (induction xs arbitrary: mem mq as t0)
  case Nil
  then have "as = []" using mq_holds_length by fastforce
  with Nil show ?case by auto
next
  case (Cons x xs)
  from suscan_mq_read_holds [OF Cons.prems, of t0]
  obtain mem1 mq1 where r: "suscan_mq_read mem mq (Some t0) = Some (mem1, mq1, snd x, Some (fst x))"
    and h: "mq_holds mem1 mq1 (tl as) xs"
    by blast
  from Cons.IH [OF h, of "fst x"] obtain mem' mq' where
    "read_n (Some (fst x)) (length xs) mem1 mq1 = Some (mem', mq', map snd xs)"
    "mq_holds mem' mq' [] []"
    by blast
  with r show ?case by simp
qed

lemma suscan_mq_read_w_type_holds:
  assumes "mq_holds mem mq as (xpre @ (ty, priv) # xpost)"
    and "\<forall>y\<in>set xpre. fst y \<noteq> ty"
  shows "\<exists>mem' mq' as'. suscan_mq_read_w_type mem mq ty = Some (mem', mq', priv) \<and>
           mq_holds mem' mq' as' (xpre @ xpost)"
proof -
  let ?pre = "take (length xpre) as" and ?a = "as ! length xpre"
    and ?post = "drop (Suc (length xpre)) as"
  have len: "length as = length xpre + Suc (length xpost)"
    using mq_holds_length [OF assms(1)] by simp
  then have as: "as = ?pre @ ?a # ?post"
    by (simp add: id_take_nth_drop)
  have lp: "length ?pre = length xpre" using len by simp
  have h: "mq_holds mem mq (?pre @ ?a # ?post) (xpre @ (ty, priv) # xpost)"
    using assms(1) as by simp
  from suscan_mq_pop_w_type_found [OF h lp assms(2)]
  obtain mem1 mq1 where pop: "suscan_mq_pop_w_type mem mq ty = Some (mem1, mq1, Some ?a)"
    and h1: "mq_holds mem1 mq1 (?pre @ ?post) (xpre @ xpost)"
    and c: "map_option (\<lambda>m. (msg_type m, msg_private m)) (mem1 ?a) = Some (ty, priv)"
    by auto
  from c obtain m where m: "mem1 ?a = Some m" "msg_private m = priv"
    by auto
  have "distinct (?pre @ ?a # ?post)"
    using mq_holds_distinct [OF h] .
  then have ni: "?a \<notin> set (?pre @ ?post)" by auto
  have "mq_holds (mem1(?a := None)) mq1 (?pre @ ?post) (xpre @ xpost)"
    unfolding mq_holds_upd_notin [OF ni] by (rule h1)
  with pop m show ?thesis
    by (auto simp: suscan_mq_read_w_type_def suscan_mq_read_internal_def
        suscan_mq_read_msg_internal_def suscan_msg_destroy_def suscan_mq_return_msg_def)
qed

lemma mq_holds_init: "mq_holds Map.empty suscan_mq_init [] []"
  by (simp add: mq_holds_def mq_wf_def suscan_mq_init_def contents_def)

subsection \<open>A read with a null type pointer\<close>

text \<open>
  \<open>suscan_mq_read_internal\<close> passes \<open>ptype == NULL\<close> as \<open>with_type\<close> (line 265), so
  \<open>suscan_mq_read\<close> with a null \<open>type\<close> pointer is the typed read for type 0.
\<close>

lemma suscan_mq_read_null:
  "suscan_mq_read mem mq None =
     map_option (\<lambda>(mem1, mq1, priv). (mem1, mq1, priv, None)) (suscan_mq_read_w_type mem mq 0)"
  by (simp add: suscan_mq_read_def suscan_mq_read_w_type_def suscan_mq_read_internal_def
      split: option.splits)

lemma suscan_mq_read_w_type_absent:
  assumes "mq_holds mem mq as xs" and "\<forall>y\<in>set xs. fst y \<noteq> ty"
  shows "suscan_mq_read_w_type mem mq ty = None"
  using suscan_mq_pop_w_type_absent [OF assms]
  by (simp add: suscan_mq_read_w_type_def suscan_mq_read_internal_def
      suscan_mq_read_msg_internal_def)

text \<open>What two non-urgent writes, and the writes of scenario S3, leave in the queue.\<close>

lemma two_writes_hold:
  "\<exists>mem1 mq1 as1.
     run_writes Map.empty suscan_mq_init [Write t1 p1 (Some 0), Write t2 p2 (Some 1)] =
       Some (mem1, mq1) \<and>
     mq_holds mem1 mq1 as1 [(t1, p1), (t2, p2)]"
  using run_writes_holds [OF mq_holds_init, of "[Write t1 p1 (Some 0), Write t2 p2 (Some 1)]"]
  by simp

lemma write_then_urgent_hold:
  "\<exists>mem1 mq1 as1.
     run_writes Map.empty suscan_mq_init [Write t1 p1 (Some 0), Write_urgent t2 p2 (Some 1)] =
       Some (mem1, mq1) \<and>
     mq_holds mem1 mq1 as1 [(t2, p2), (t1, p1)]"
  using run_writes_holds [OF mq_holds_init, of "[Write t1 p1 (Some 0), Write_urgent t2 p2 (Some 1)]"]
  by simp

subsection \<open>Ordering seen by the reader\<close>

text \<open>
  C4, as stated, fails for the plain read that passes no \<open>type\<close> pointer.  After the
  non-urgent writes of \<open>A\<close> with type 1 and \<open>B\<close> with type 0 to an empty queue,
  \<open>suscan_mq_read\<close> with a null pointer returns \<open>B\<close>, which was written after \<open>A\<close> and is
  not urgent.
\<close>

theorem plain_read_null_pointer_counterexample:
  "(case run_writes Map.empty suscan_mq_init
        [Write 1 ''A'' (Some 0), Write 0 ''B'' (Some 1)] of
      None \<Rightarrow> None
    | Some (mem1, mq1) \<Rightarrow>
        map_option (\<lambda>(mem2, mq2, priv, ty). priv) (suscan_mq_read mem1 mq1 None)) =
   Some ''B''"
proof -
  from two_writes_hold [of 1 "''A''" 0 "''B''"]
  obtain mem1 mq1 as1 where
    w: "run_writes Map.empty suscan_mq_init
          [Write 1 ''A'' (Some 0), Write 0 ''B'' (Some 1)] = Some (mem1, mq1)"
    and h: "mq_holds mem1 mq1 as1 ([(1, ''A'')] @ (0, ''B'') # [])"
    by auto
  have t: "\<forall>y\<in>set [(1 :: u32, ''A'')]. fst y \<noteq> 0" by simp
  from suscan_mq_read_w_type_holds [OF h t]
  obtain mem2 mq2 where "suscan_mq_read_w_type mem1 mq1 0 = Some (mem2, mq2, ''B'')"
    by blast
  then have "suscan_mq_read mem1 mq1 None = Some (mem2, mq2, ''B'', None)"
    by (simp add: suscan_mq_read_null)
  with w show ?thesis
    unfolding w by simp
qed

text \<open>
  On the queue of scenario S3, whose three messages have type 1, the same read never
  returns.
\<close>

lemma scenario_S3_null_pointer:
  "(case run_writes Map.empty suscan_mq_init
        [Write 1 ''A'' (Some 0), Write 1 ''B'' (Some 1), Write_urgent 1 ''C'' (Some 2)] of
      None \<Rightarrow> Some None
    | Some (mem1, mq1) \<Rightarrow> Some (suscan_mq_read mem1 mq1 None)) = Some None"
proof -
  let ?cs = "[Write 1 ''A'' (Some 0), Write 1 ''B'' (Some 1), Write_urgent 1 ''C'' (Some 2)]"
  from run_writes_holds [OF mq_holds_init, of ?cs]
  obtain mem1 mq1 as1 where
    w: "run_writes Map.empty suscan_mq_init ?cs = Some (mem1, mq1)"
    and h: "mq_holds mem1 mq1 as1 [(1, ''C''), (1, ''A''), (1, ''B'')]"
    by auto
  have t: "\<forall>y\<in>set [(1 :: u32, ''C''), (1, ''A''), (1, ''B'')]. fst y \<noteq> 0" by simp
  from suscan_mq_read_w_type_absent [OF h t]
  have "suscan_mq_read mem1 mq1 None = None"
    by (simp add: suscan_mq_read_null)
  then show ?thesis
    unfolding w by simp
qed

text \<open>
  C4, amended.  Take any well-formed queue holding \<open>xs\<close> and any sequence of
  \<open>suscan_mq_write\<close> and \<open>suscan_mq_write_urgent\<close> calls.  All calls return, and a reader
  that then calls \<open>suscan_mq_read\<close> with a non-null \<open>type\<close> pointer once per message gets
  first the urgent payloads, the latest one first, then the payloads \<open>xs\<close> that were
  pending, then the non-urgent payloads in the order of their writes, and leaves the
  queue empty.  Writing non-urgent \<open>A\<close>, non-urgent \<open>B\<close> and urgent \<open>C\<close> to an empty queue
  gives the reads \<open>C\<close>, \<open>A\<close>, \<open>B\<close>.
\<close>

theorem mq_urgent_first_then_fifo:
  assumes "mq_holds mem mq as xs" and "fresh_allocs (dom mem) cs"
  shows "\<exists>mem1 mq1 mem2.
           run_writes mem mq cs = Some (mem1, mq1) \<and>
           read_n (Some t0) (length (rev (urgent_written cs) @ xs @ normal_written cs)) mem1 mq1 =
             Some (mem2, suscan_mq_init, map snd (rev (urgent_written cs) @ xs @ normal_written cs))"
proof -
  from run_writes_holds [OF assms] obtain mem1 mq1 as1 where
    w: "run_writes mem mq cs = Some (mem1, mq1)" and
    h: "mq_holds mem1 mq1 as1 (rev (urgent_written cs) @ xs @ normal_written cs)"
    by blast
  from read_n_holds [OF h, of t0] obtain mem2 mq2 where
    r: "read_n (Some t0) (length (rev (urgent_written cs) @ xs @ normal_written cs)) mem1 mq1 =
          Some (mem2, mq2, map snd (rev (urgent_written cs) @ xs @ normal_written cs))"
    and e: "mq_holds mem2 mq2 [] []"
    by blast
  from e have "mq2 = suscan_mq_init"
    by (simp add: mq_holds_def mq_wf_def suscan_mq_init_def)
  with w r show ?thesis by blast
qed

theorem mq_urgent_first_then_fifo_witness:
  "mq_holds Map.empty suscan_mq_init [] ([] :: (u32 \<times> string) list) \<and>
   fresh_allocs (dom (Map.empty :: string memory))
     [Write 1 ''A'' (Some 0), Write 1 ''B'' (Some 1), Write_urgent 1 ''C'' (Some 2)] \<and>
   (\<exists>mem1 mq1 mem2.
      run_writes Map.empty suscan_mq_init
        [Write 1 ''A'' (Some 0), Write 1 ''B'' (Some 1), Write_urgent 1 ''C'' (Some 2)] =
        Some (mem1, mq1) \<and>
      read_n (Some 0) 3 mem1 mq1 = Some (mem2, suscan_mq_init, [''C'', ''A'', ''B'']))"
  using mq_urgent_first_then_fifo [of Map.empty suscan_mq_init "[]" "[]"
      "[Write 1 ''A'' (Some 0), Write 1 ''B'' (Some 1), Write_urgent 1 ''C'' (Some 2)]" 0]
  by (simp add: mq_holds_init numeral_3_eq_3 del: read_n.simps run_writes.simps)

text \<open>Scenario S3 again, by running the model instead of by the theorem.\<close>

lemma scenario_S3_runs:
  "(case run_writes Map.empty suscan_mq_init
        [Write 1 ''A'' (Some 0), Write 1 ''B'' (Some 1), Write_urgent 1 ''C'' (Some 2)] of
      None \<Rightarrow> None
    | Some (mem1, mq1) \<Rightarrow> map_option (\<lambda>(m, q, ps). (q, ps)) (read_n (Some 0) 3 mem1 mq1)) =
   Some (suscan_mq_init, [''C'', ''A'', ''B''])"
  by (simp add: suscan_mq_write_def suscan_mq_write_urgent_def suscan_msg_new_def
      suscan_mq_write_msg_def suscan_mq_write_msg_urgent_def suscan_mq_push_def
      suscan_mq_push_front_def set_next_def suscan_mq_init_def numeral_3_eq_3
      suscan_mq_read_def suscan_mq_read_internal_def suscan_mq_read_msg_internal_def
      suscan_mq_pop_def suscan_msg_destroy_def suscan_mq_return_msg_def Let_def)

subsection \<open>Typed reads\<close>

text \<open>
  C5, as stated, fails when an urgent write has put a newer message of the type before
  an older one.  After \<open>suscan_mq_write\<close> of \<open>OLD\<close> and \<open>suscan_mq_write_urgent\<close> of \<open>NEW\<close>,
  both of type 2, \<open>suscan_mq_read_w_type\<close> for type 2 returns \<open>NEW\<close>, not the oldest
  message of the type.
\<close>

theorem read_w_type_newest_counterexample:
  "(case run_writes Map.empty suscan_mq_init
        [Write 2 ''OLD'' (Some 0), Write_urgent 2 ''NEW'' (Some 1)] of
      None \<Rightarrow> None
    | Some (mem1, mq1) \<Rightarrow>
        map_option (\<lambda>(mem2, mq2, priv). priv) (suscan_mq_read_w_type mem1 mq1 2)) =
   Some ''NEW''"
proof -
  from write_then_urgent_hold [of 2 "''OLD''" 2 "''NEW''"]
  obtain mem1 mq1 as1 where
    w: "run_writes Map.empty suscan_mq_init
          [Write 2 ''OLD'' (Some 0), Write_urgent 2 ''NEW'' (Some 1)] = Some (mem1, mq1)"
    and h: "mq_holds mem1 mq1 as1 ([] @ (2, ''NEW'') # [(2, ''OLD'')])"
    by auto
  have t: "\<forall>y\<in>set ([] :: (u32 \<times> string) list). fst y \<noteq> 2" by simp
  from suscan_mq_read_w_type_holds [OF h t]
  obtain mem2 mq2 where "suscan_mq_read_w_type mem1 mq1 2 = Some (mem2, mq2, ''NEW'')"
    by blast
  then show ?thesis
    unfolding w by simp
qed

text \<open>
  C5, amended.  When the queue holds \<open>xpre @ (ty, priv) # xpost\<close> from head to tail and
  no message of \<open>xpre\<close> has type \<open>ty\<close>, \<open>suscan_mq_read_w_type\<close> for \<open>ty\<close> returns \<open>priv\<close>, the
  payload of the first message of that type counted from the head, and leaves a
  well-formed queue holding \<open>xpre @ xpost\<close>: the other messages in their order, which
  the following reads with a non-null \<open>type\<close> pointer return.  After type 1 \<open>P1\<close>, type 2
  \<open>P2\<close>, type 1 \<open>P3\<close> the typed read for 2 returns \<open>P2\<close> and two such reads return \<open>P1\<close>,
  \<open>P3\<close>.
\<close>

theorem read_w_type_first_match:
  assumes "mq_holds mem mq as (xpre @ (ty, priv) # xpost)"
    and "\<forall>y\<in>set xpre. fst y \<noteq> ty"
  shows "\<exists>mem1 mq1 as1 mem2.
           suscan_mq_read_w_type mem mq ty = Some (mem1, mq1, priv) \<and>
           mq_holds mem1 mq1 as1 (xpre @ xpost) \<and>
           read_n (Some t0) (length (xpre @ xpost)) mem1 mq1 =
             Some (mem2, suscan_mq_init, map snd (xpre @ xpost))"
proof -
  from suscan_mq_read_w_type_holds [OF assms] obtain mem1 mq1 as1 where
    r: "suscan_mq_read_w_type mem mq ty = Some (mem1, mq1, priv)" and
    h: "mq_holds mem1 mq1 as1 (xpre @ xpost)"
    by blast
  from read_n_holds [OF h, of t0] obtain mem2 mq2 where
    n: "read_n (Some t0) (length (xpre @ xpost)) mem1 mq1 =
          Some (mem2, mq2, map snd (xpre @ xpost))"
    and e: "mq_holds mem2 mq2 [] []"
    by blast
  from e have "mq2 = suscan_mq_init"
    by (simp add: mq_holds_def mq_wf_def suscan_mq_init_def)
  with r h n show ?thesis by blast
qed

text \<open>The memory of scenario S4 is the one that the three writes build.\<close>

lemma s4_mem_written:
  "run_writes Map.empty suscan_mq_init
     [Write 1 ''P1'' (Some 0), Write 2 ''P2'' (Some 1), Write 1 ''P3'' (Some 2)] =
   Some (s4_mem, \<lparr>head = Some 0, tail = Some 2\<rparr>)"
  by (simp add: suscan_mq_write_def suscan_msg_new_def suscan_mq_write_msg_def
      suscan_mq_push_def set_next_def suscan_mq_init_def s4_mem_def Let_def fun_eq_iff)

theorem read_w_type_first_match_witness:
  "mq_holds s4_mem \<lparr>head = Some 0, tail = Some 2\<rparr> [0, 1, 2]
     ([(1, ''P1'')] @ (2, ''P2'') # [(1, ''P3'')]) \<and>
   (\<exists>mem1 mq1 mem2.
      suscan_mq_read_w_type s4_mem \<lparr>head = Some 0, tail = Some 2\<rparr> 2 = Some (mem1, mq1, ''P2'') \<and>
      read_n (Some 0) 2 mem1 mq1 = Some (mem2, suscan_mq_init, [''P1'', ''P3'']))"
proof -
  have h: "mq_holds s4_mem \<lparr>head = Some 0, tail = Some 2\<rparr> [0, 1, 2]
     ([(1, ''P1'')] @ (2, ''P2'') # [(1, ''P3'')])"
    by (simp add: mq_holds_def mq_wf_def contents_def s4_mem_def)
  have t: "\<forall>y\<in>set [(1 :: u32, ''P1'')]. fst y \<noteq> 2" by simp
  from read_w_type_first_match [OF h t, of 0] show ?thesis
    using h t by (auto simp: numeral_2_eq_2 simp del: read_n.simps)
qed

section \<open>Sample feed: proofs\<close>

lemma symbol_sampler_frame:
  "state (symbol_sampler sps sample insp) = state insp"
  "params (symbol_sampler sps sample insp) = params insp"
  "sym_period (symbol_sampler sps sample insp) = sym_period insp"
  "sym_last_sample (symbol_sampler sps sample insp) = sym_last_sample insp"
  "phase (symbol_sampler sps sample insp) = phase insp"
  "task_state (symbol_sampler sps sample insp) = task_state insp"
  by (simp_all add: symbol_sampler_def Let_def)

lemma symbol_sampler_off:
  "sym_period insp < 1 \<Longrightarrow> symbol_sampler sps sample insp = insp"
  by (simp add: symbol_sampler_def)

lemma symbol_sampler_eq:
  assumes "sym_period insp \<ge> 1"
  shows "symbol_sampler sps sample insp =
     (let ph = next_sym_phase (sym_period insp) (sym_phase insp);
          alpha = ph - of_int \<lfloor>ph\<rfloor>
      in if \<lfloor>Re (complex_of_real ph - sps)\<rfloor> = 0
         then insp\<lparr>sym_phase := ph, sym_new_sample := True,
                   sym_sampler_output :=
                     0.5 * (complex_of_real (1 - alpha) * sym_last_sample insp
                            + complex_of_real alpha * sample),
                   symbols_emitted := Suc (symbols_emitted insp)\<rparr>
         else insp\<lparr>sym_phase := ph, sym_new_sample := False\<rparr>)"
  using assms by (auto simp: symbol_sampler_def next_sym_phase_def Let_def)

lemma symbol_sampler_on:
  assumes "sym_period insp \<ge> 1"
  defines "ph \<equiv> next_sym_phase (sym_period insp) (sym_phase insp)"
  shows "sym_phase (symbol_sampler sps sample insp) = ph"
    and "sym_new_sample (symbol_sampler sps sample insp) \<longleftrightarrow> \<lfloor>Re (complex_of_real ph - sps)\<rfloor> = 0"
    and "sym_new_sample (symbol_sampler sps sample insp) \<Longrightarrow>
           sym_sampler_output (symbol_sampler sps sample insp) =
             0.5 * (complex_of_real (1 - (ph - of_int \<lfloor>ph\<rfloor>)) * sym_last_sample insp
                    + complex_of_real (ph - of_int \<lfloor>ph\<rfloor>) * sample)"
    and "\<not> sym_new_sample (symbol_sampler sps sample insp) \<Longrightarrow>
           sym_sampler_output (symbol_sampler sps sample insp) = sym_sampler_output insp"
    and "symbols_emitted (symbol_sampler sps sample insp) =
           symbols_emitted insp + (if sym_new_sample (symbol_sampler sps sample insp) then 1 else 0)"
  unfolding ph_def symbol_sampler_eq [OF assms(1)] by (simp_all add: Let_def split: if_splits)

lemma symbol_sampler_emitted:
  "\<not> sym_new_sample insp \<Longrightarrow>
   symbols_emitted (symbol_sampler sps sample insp) =
     symbols_emitted insp + (if sym_new_sample (symbol_sampler sps sample insp) then 1 else 0)"
  by (simp add: symbol_sampler_def Let_def)

lemma feed_bulk_body_frame:
  assumes "feed_bulk_body su sps insp xi = (ok, insp')"
  shows "state insp' = state insp" and "params insp' = params insp"
    and "sym_period insp' = sym_period insp" and "phase insp' = phase insp"
    and "task_state insp' = task_state insp"
  using assms
  by (auto simp: feed_bulk_body_def Let_def symbol_sampler_frame
      split: prod.splits bool.splits suscan_inspector_carrier_control.splits)

lemma feed_bulk_body_failed:
  assumes "feed_bulk_body su sps insp xi = (False, insp')"
  shows "sym_new_sample insp' = sym_new_sample insp"
    and "symbols_emitted insp' = symbols_emitted insp"
    and "sym_phase insp' = sym_phase insp"
    and "sym_sampler_output insp' = sym_sampler_output insp"
    and "sym_last_sample insp' = sym_last_sample insp"
  using assms
  by (auto simp: feed_bulk_body_def Let_def
      split: prod.splits bool.splits suscan_inspector_carrier_control.splits)


declare feed_bulk_loop.simps [simp del]

lemma feed_bulk_loop_stop:
  "\<not> (i < count \<and> \<not> sym_new_sample insp) \<Longrightarrow>
   feed_bulk_loop su x count sps i insp = Some (insp, i)"
  by (subst feed_bulk_loop.simps) auto

lemma feed_bulk_loop_step:
  "i < count \<Longrightarrow> \<not> sym_new_sample insp \<Longrightarrow> 0 \<le> i \<Longrightarrow> i < int (length x) \<Longrightarrow>
   feed_bulk_loop su x count sps i insp =
     (case feed_bulk_body su sps insp (x ! nat i) of
        (False, insp') \<Rightarrow> Some (insp', -1)
      | (True, insp') \<Rightarrow> feed_bulk_loop su x count sps (i + 1) insp')"
  by (subst feed_bulk_loop.simps) simp

lemma feed_bulk_body_emitted:
  assumes "feed_bulk_body su sps insp xi = (True, insp')" and "\<not> sym_new_sample insp"
  shows "symbols_emitted insp' = symbols_emitted insp + (if sym_new_sample insp' then 1 else 0)"
  using assms
  by (auto simp: feed_bulk_body_def Let_def symbol_sampler_emitted
      split: prod.splits bool.splits suscan_inspector_carrier_control.splits)

lemma feed_bulk_loop_returns:
  assumes "0 \<le> i" and "count \<le> int (length x)"
  shows "\<exists>insp' r. feed_bulk_loop su x count sps i insp = Some (insp', r) \<and>
           (r = -1 \<or> (i \<le> r \<and> r \<le> max i count))"
  using assms
proof (induction su x count sps i insp rule: feed_bulk_loop.induct)
  case (1 su x count sps i insp)
  show ?case
  proof (cases "i < count \<and> \<not> sym_new_sample insp")
    case False
    then show ?thesis by (simp add: feed_bulk_loop_stop)
  next
    case True
    with "1.prems" have b: "\<not> (i < 0 \<or> int (length x) \<le> i)" by auto
    obtain ok insp1 where body: "feed_bulk_body su sps insp (x ! nat i) = (ok, insp1)"
      by (cases "feed_bulk_body su sps insp (x ! nat i)")
    show ?thesis
    proof (cases ok)
      case False
      with True b body show ?thesis by (simp add: feed_bulk_loop_step)
    next
      case True
      then have ok: "ok = True" by simp
      from "1.IH" [OF \<open>i < count \<and> \<not> sym_new_sample insp\<close> b body [symmetric] ok] "1.prems"
      obtain insp' r where "feed_bulk_loop su x count sps (i + 1) insp1 = Some (insp', r)"
        "r = -1 \<or> (i + 1 \<le> r \<and> r \<le> max (i + 1) count)"
        by auto
      with \<open>i < count \<and> \<not> sym_new_sample insp\<close> b body ok show ?thesis
        by (auto simp: feed_bulk_loop_step)
    qed
  qed
qed

lemma feed_bulk_loop_emitted:
  assumes "feed_bulk_loop su x count sps i insp = Some (insp', r)"
    and "\<not> sym_new_sample insp"
  shows "symbols_emitted insp' = symbols_emitted insp + (if sym_new_sample insp' then 1 else 0)"
  using assms
proof (induction su x count sps i insp rule: feed_bulk_loop.induct)
  case (1 su x count sps i insp)
  show ?case
  proof (cases "i < count \<and> \<not> sym_new_sample insp")
    case False
    with "1.prems" show ?thesis by (simp add: feed_bulk_loop_stop)
  next
    case True
    show ?thesis
    proof (cases "i < 0 \<or> int (length x) \<le> i")
      case oob: True
      with True "1.prems"(1) show ?thesis
        by (subst (asm) feed_bulk_loop.simps) simp
    next
      case b: False
      obtain ok insp1 where body: "feed_bulk_body su sps insp (x ! nat i) = (ok, insp1)"
        by (cases "feed_bulk_body su sps insp (x ! nat i)")
      show ?thesis
      proof (cases ok)
        case False
        with True b body "1.prems" have "insp' = insp1"
          by (simp add: feed_bulk_loop_step)
        with False body "1.prems"(2) show ?thesis
          by (simp add: feed_bulk_body_failed)
      next
        case True
        then have ok: "ok = True" by simp
        note guard = \<open>i < count \<and> \<not> sym_new_sample insp\<close>
        from guard b body ok "1.prems"(1)
        have next_call: "feed_bulk_loop su x count sps (i + 1) insp1 = Some (insp', r)"
          by (simp add: feed_bulk_loop_step)
        from body ok "1.prems"(2)
        have e1: "symbols_emitted insp1 = symbols_emitted insp + (if sym_new_sample insp1 then 1 else 0)"
          by (simp add: feed_bulk_body_emitted)
        show ?thesis
        proof (cases "sym_new_sample insp1")
          case fired: True
          with next_call have "insp' = insp1" by (simp add: feed_bulk_loop_stop)
          with e1 show ?thesis by simp
        next
          case False
          from "1.IH" [OF guard b body [symmetric] ok next_call False] e1 False
          show ?thesis by simp
        qed
      qed
    qed
  qed
qed


lemma drop_int_step:
  "0 \<le> i \<Longrightarrow> i < int (length x) \<Longrightarrow> drop (nat i) x = x ! nat i # drop (nat (i + 1)) x"
  by (simp add: nat_add_distrib Cons_nth_drop_Suc)

lemma feed_bulk_loop_consumed:
  assumes "feed_bulk_loop su x count sps i insp = Some (insp', r)" and "r \<noteq> -1" and "0 \<le> i"
  shows "i \<le> r \<and>
         feed_samples su sps insp (take (nat (r - i)) (drop (nat i) x)) = Some insp' \<and>
         (sym_new_sample insp' \<or> r = max i count) \<and>
         (\<forall>k<nat (r - i). \<forall>s. feed_samples su sps insp (take k (drop (nat i) x)) = Some s
              \<longrightarrow> \<not> sym_new_sample s)"
  using assms
proof (induction su x count sps i insp rule: feed_bulk_loop.induct)
  case (1 su x count sps i insp)
  show ?case
  proof (cases "i < count \<and> \<not> sym_new_sample insp")
    case False
    with "1.prems" have "insp' = insp" "r = i" by (simp_all add: feed_bulk_loop_stop)
    with False show ?thesis by auto
  next
    case guard: True
    show ?thesis
    proof (cases "i < 0 \<or> int (length x) \<le> i")
      case True
      with guard "1.prems"(1) show ?thesis
        by (subst (asm) feed_bulk_loop.simps) simp
    next
      case b: False
      then have d: "drop (nat i) x = x ! nat i # drop (nat (i + 1)) x"
        by (simp add: drop_int_step)
      obtain ok insp1 where body: "feed_bulk_body su sps insp (x ! nat i) = (ok, insp1)"
        by (cases "feed_bulk_body su sps insp (x ! nat i)")
      show ?thesis
      proof (cases ok)
        case False
        with guard b body "1.prems" show ?thesis
          by (simp add: feed_bulk_loop_step)
      next
        case True
        then have ok: "ok = True" by simp
        from guard b body ok "1.prems"(1)
        have next_call: "feed_bulk_loop su x count sps (i + 1) insp1 = Some (insp', r)"
          by (simp add: feed_bulk_loop_step)
        from "1.IH" [OF guard b body [symmetric] ok next_call "1.prems"(2)] b
        have ih: "i + 1 \<le> r"
          "feed_samples su sps insp1 (take (nat (r - (i + 1))) (drop (nat (i + 1)) x)) = Some insp'"
          "sym_new_sample insp' \<or> r = max (i + 1) count"
          "\<forall>k<nat (r - (i + 1)). \<forall>s.
              feed_samples su sps insp1 (take k (drop (nat (i + 1)) x)) = Some s
              \<longrightarrow> \<not> sym_new_sample s"
          by auto
        from ih(1) have n: "nat (r - i) = Suc (nat (r - (i + 1)))" by simp
        have c1: "i \<le> r" using ih(1) by simp
        have c2: "feed_samples su sps insp (take (nat (r - i)) (drop (nat i) x)) = Some insp'"
          unfolding n d using body ok ih(2) by simp
        have c3: "sym_new_sample insp' \<or> r = max i count"
          using ih(3) guard by auto
        have c4: "\<not> sym_new_sample s"
          if "k < nat (r - i)" "feed_samples su sps insp (take k (drop (nat i) x)) = Some s"
          for k s
        proof (cases k)
          case 0
          with that(2) guard show ?thesis by simp
        next
          case (Suc k')
          with that n have "k' < nat (r - (i + 1))"
            and "feed_samples su sps insp1 (take k' (drop (nat (i + 1)) x)) = Some s"
            using body ok unfolding d by simp_all
          with ih(4) show ?thesis by blast
        qed
        from c1 c2 c3 c4 show ?thesis by blast
      qed
    qed
  qed
qed

lemma feed_bulk_loop_failed:
  assumes "feed_bulk_loop su x count sps i insp = Some (insp', -1)" and "0 \<le> i"
  shows "\<not> sym_new_sample insp' \<and>
         (\<exists>k s. int k < count - i \<and>
            feed_samples su sps insp (take k (drop (nat i) x)) = Some s \<and>
            \<not> sym_new_sample s \<and>
            feed_bulk_body su sps s (x ! (nat i + k)) = (False, insp'))"
  using assms
proof (induction su x count sps i insp rule: feed_bulk_loop.induct)
  case (1 su x count sps i insp)
  show ?case
  proof (cases "i < count \<and> \<not> sym_new_sample insp")
    case False
    with "1.prems" show ?thesis by (simp add: feed_bulk_loop_stop)
  next
    case guard: True
    show ?thesis
    proof (cases "i < 0 \<or> int (length x) \<le> i")
      case True
      with guard "1.prems"(1) show ?thesis
        by (subst (asm) feed_bulk_loop.simps) simp
    next
      case b: False
      then have d: "drop (nat i) x = x ! nat i # drop (nat (i + 1)) x"
        by (simp add: drop_int_step)
      obtain ok insp1 where body: "feed_bulk_body su sps insp (x ! nat i) = (ok, insp1)"
        by (cases "feed_bulk_body su sps insp (x ! nat i)")
      show ?thesis
      proof (cases ok)
        case False
        with guard b body "1.prems" have e: "insp' = insp1"
          by (simp add: feed_bulk_loop_step)
        with False body guard have "\<not> sym_new_sample insp'"
          by (simp add: feed_bulk_body_failed)
        moreover have "int 0 < count - i \<and>
            feed_samples su sps insp (take 0 (drop (nat i) x)) = Some insp \<and>
            \<not> sym_new_sample insp \<and>
            feed_bulk_body su sps insp (x ! (nat i + 0)) = (False, insp')"
          using guard body False e by simp
        ultimately show ?thesis by blast
      next
        case True
        then have ok: "ok = True" by simp
        from guard b body ok "1.prems"(1)
        have next_call: "feed_bulk_loop su x count sps (i + 1) insp1 = Some (insp', -1)"
          by (simp add: feed_bulk_loop_step)
        from "1.IH" [OF guard b body [symmetric] ok next_call] b
        obtain k s where ih: "\<not> sym_new_sample insp'" "int k < count - (i + 1)"
          "feed_samples su sps insp1 (take k (drop (nat (i + 1)) x)) = Some s"
          "\<not> sym_new_sample s"
          "feed_bulk_body su sps s (x ! (nat (i + 1) + k)) = (False, insp')"
          by auto
        have "int (Suc k) < count - i" using ih(2) by simp
        moreover have "feed_samples su sps insp (take (Suc k) (drop (nat i) x)) = Some s"
          unfolding d using body ok ih(3) by simp
        moreover have "feed_bulk_body su sps s (x ! (nat i + Suc k)) = (False, insp')"
          using ih(5) b by (simp add: nat_add_distrib)
        ultimately show ?thesis using ih(1,4) by blast
      qed
    qed
  qed
qed

lemma feed_samples_append:
  "feed_samples su sps insp (xs @ ys) =
     (case feed_samples su sps insp xs of None \<Rightarrow> None | Some s \<Rightarrow> feed_samples su sps s ys)"
  by (induction xs arbitrary: insp) (auto split: prod.splits bool.splits)

lemma feed_samples_frame:
  "feed_samples su sps insp xs = Some s \<Longrightarrow>
   sym_period s = sym_period insp \<and> params s = params insp \<and> state s = state insp"
  by (induction xs arbitrary: insp)
    (auto split: prod.splits bool.splits dest: feed_bulk_body_frame)

lemma feed_bulk_body_sampler_off:
  assumes "feed_bulk_body su sps insp xi = (ok, insp')" and "sym_period insp < 1"
  shows "sym_new_sample insp' = sym_new_sample insp \<and> sym_phase insp' = sym_phase insp \<and>
         sym_sampler_output insp' = sym_sampler_output insp \<and>
         symbols_emitted insp' = symbols_emitted insp"
  using assms
  by (auto simp: feed_bulk_body_def Let_def symbol_sampler_off
      split: prod.splits bool.splits suscan_inspector_carrier_control.splits)

lemma feed_bulk_body_sampler_on:
  assumes "feed_bulk_body su sps insp xi = (True, insp')" and "sym_period insp \<ge> 1"
  shows "sym_phase insp' = next_sym_phase (sym_period insp) (sym_phase insp)"
    and "sym_new_sample insp' \<longleftrightarrow> \<lfloor>Re (complex_of_real (sym_phase insp') - sps)\<rfloor> = 0"
    and "sym_new_sample insp' \<Longrightarrow>
           sym_sampler_output insp' =
             0.5 * (complex_of_real (1 - (sym_phase insp' - of_int \<lfloor>sym_phase insp'\<rfloor>))
                      * sym_last_sample insp
                    + complex_of_real (sym_phase insp' - of_int \<lfloor>sym_phase insp'\<rfloor>)
                      * sym_last_sample insp')"
    and "\<not> sym_new_sample insp' \<Longrightarrow> sym_sampler_output insp' = sym_sampler_output insp"
  using assms
  by (auto simp: feed_bulk_body_def Let_def symbol_sampler_eq
      split: prod.splits bool.splits suscan_inspector_carrier_control.splits if_splits)

lemma next_sym_phase_modulo:
  assumes "1 \<le> period" and "0 \<le> ph" and "ph < period"
  shows "next_sym_phase period ph = spec_next_sym_phase period ph"
    and "0 \<le> next_sym_phase period ph" and "next_sym_phase period ph < period"
proof -
  have pos: "0 < period" using assms(1) by simp
  show "next_sym_phase period ph = spec_next_sym_phase period ph"
  proof (cases "ph + 1 \<ge> period")
    case True
    have "1 \<le> (ph + 1) / period" using True pos by (simp add: le_divide_eq)
    moreover have "(ph + 1) / period < 2" using assms pos by (simp add: divide_less_eq)
    ultimately have "\<lfloor>(ph + 1) / period\<rfloor> = 1" by linarith
    with True show ?thesis by (simp add: next_sym_phase_def spec_next_sym_phase_def)
  next
    case False
    have "0 \<le> (ph + 1) / period" using assms pos by simp
    moreover have "(ph + 1) / period < 1" using False pos by (simp add: divide_less_eq)
    ultimately have "\<lfloor>(ph + 1) / period\<rfloor> = 0" by linarith
    with False show ?thesis by (simp add: next_sym_phase_def spec_next_sym_phase_def)
  qed
  show "0 \<le> next_sym_phase period ph" "next_sym_phase period ph < period"
    using assms by (auto simp: next_sym_phase_def)
qed

lemma feed_bulk_loop_sampler_off:
  assumes "feed_bulk_loop su x count sps i insp = Some (insp', r)" and "sym_period insp < 1"
    and "\<not> sym_new_sample insp"
  shows "\<not> sym_new_sample insp' \<and> sym_phase insp' = sym_phase insp \<and>
         sym_sampler_output insp' = sym_sampler_output insp \<and>
         symbols_emitted insp' = symbols_emitted insp \<and> (r = -1 \<or> r = max i count)"
  using assms
proof (induction su x count sps i insp rule: feed_bulk_loop.induct)
  case (1 su x count sps i insp)
  show ?case
  proof (cases "i < count \<and> \<not> sym_new_sample insp")
    case False
    with "1.prems" show ?thesis by (auto simp: feed_bulk_loop_stop)
  next
    case guard: True
    show ?thesis
    proof (cases "i < 0 \<or> int (length x) \<le> i")
      case True
      with guard "1.prems"(1) show ?thesis
        by (subst (asm) feed_bulk_loop.simps) simp
    next
      case b: False
      obtain ok insp1 where body: "feed_bulk_body su sps insp (x ! nat i) = (ok, insp1)"
        by (cases "feed_bulk_body su sps insp (x ! nat i)")
      note off = feed_bulk_body_sampler_off [OF body "1.prems"(2)]
      show ?thesis
      proof (cases ok)
        case False
        with guard b body "1.prems" have "insp' = insp1" "r = -1"
          by (simp_all add: feed_bulk_loop_step)
        with off "1.prems"(3) show ?thesis by simp
      next
        case True
        then have ok: "ok = True" by simp
        from guard b body ok "1.prems"(1)
        have next_call: "feed_bulk_loop su x count sps (i + 1) insp1 = Some (insp', r)"
          by (simp add: feed_bulk_loop_step)
        have p1: "sym_period insp1 < 1"
          using feed_bulk_body_frame(3) [OF body] "1.prems"(2) by simp
        have f1: "\<not> sym_new_sample insp1" using off "1.prems"(3) by simp
        from "1.IH" [OF guard b body [symmetric] ok next_call p1 f1] off guard
        show ?thesis by auto
      qed
    qed
  qed
qed

subsection \<open>The claims on \<open>suscan_inspector_feed_bulk\<close>\<close>

text \<open>
  C2, as stated, fails when a channel detector refuses a sample: the call then returns
  \<open>-1\<close>, which is not a number of samples, and it has stopped before the end of the
  buffer without a symbol.  Here the detector of \<open>su_plain\<close> refuses the only sample.
\<close>

theorem feed_bulk_failed_feed_counterexample:
  "suscan_inspector_feed_bulk su_plain insp_plain [0] 1 = Some (insp_plain, -1) \<and>
   \<not> sym_new_sample insp_plain"
  by (simp add: suscan_inspector_feed_bulk_def feed_bulk_loop.simps feed_bulk_body_def
      su_plain_def insp_plain_def)

text \<open>
  C2, amended.  For a buffer \<open>x\<close> of at least \<open>count\<close> samples the call returns, with a
  result \<open>r\<close> that is \<open>-1\<close> or lies between \<open>0\<close> and \<open>count\<close>.  If no feed fails, \<open>r\<close> is
  the number of samples consumed: the inspector is the one that the loop body leaves
  after the first \<open>r\<close> samples in order, no symbol was produced before the last of them,
  and the call stopped before \<open>count\<close> only with \<open>sym_new_sample\<close> set.  If a detector
  feed fails, \<open>r = -1\<close>, \<open>sym_new_sample\<close> is false, and the inspector is the one that the
  failed feed left after the samples before it.  In both cases the number of symbols
  emitted during the call is 1 if \<open>sym_new_sample\<close> is true on exit and 0 otherwise.
\<close>

theorem feed_bulk_one_symbol:
  fixes insp :: "('det, 'nco, 'agc, 'pll, 'ts) suscan_inspector"
  assumes "count \<le> int (length x)"
  defines "sps \<equiv> complex_of_real (params_sym_phase (params insp) * sym_period insp)"
    and "insp0 \<equiv> insp\<lparr>sym_new_sample := False\<rparr>"
  shows "\<exists>insp' r.
    suscan_inspector_feed_bulk su insp x count = Some (insp', r) \<and>
    (r = -1 \<or> (0 \<le> r \<and> r \<le> max 0 count)) \<and>
    symbols_emitted insp' = symbols_emitted insp + (if sym_new_sample insp' then 1 else 0) \<and>
    (r \<noteq> -1 \<longrightarrow>
       feed_samples su sps insp0 (take (nat r) x) = Some insp' \<and>
       (sym_new_sample insp' \<or> r = max 0 count) \<and>
       (\<forall>k<nat r. \<forall>s. feed_samples su sps insp0 (take k x) = Some s \<longrightarrow> \<not> sym_new_sample s)) \<and>
    (r = -1 \<longrightarrow>
       \<not> sym_new_sample insp' \<and>
       (\<exists>k s. int k < count \<and> feed_samples su sps insp0 (take k x) = Some s \<and>
          \<not> sym_new_sample s \<and> feed_bulk_body su sps s (x ! k) = (False, insp')))"
proof -
  have call: "suscan_inspector_feed_bulk su insp x count = feed_bulk_loop su x count sps 0 insp0"
    by (simp add: suscan_inspector_feed_bulk_def sps_def insp0_def)
  from feed_bulk_loop_returns [of 0 count x su sps insp0] assms(1)
  obtain insp' r where loop: "feed_bulk_loop su x count sps 0 insp0 = Some (insp', r)"
    and range: "r = -1 \<or> (0 \<le> r \<and> r \<le> max 0 count)"
    by auto
  have f0: "\<not> sym_new_sample insp0" by (simp add: insp0_def)
  have emitted: "symbols_emitted insp' = symbols_emitted insp + (if sym_new_sample insp' then 1 else 0)"
    using feed_bulk_loop_emitted [OF loop f0] by (simp add: insp0_def)
  have consumed: "feed_samples su sps insp0 (take (nat r) x) = Some insp' \<and>
       (sym_new_sample insp' \<or> r = max 0 count) \<and>
       (\<forall>k<nat r. \<forall>s. feed_samples su sps insp0 (take k x) = Some s \<longrightarrow> \<not> sym_new_sample s)"
    if "r \<noteq> -1"
    using feed_bulk_loop_consumed [OF loop that] by simp
  have failed: "\<not> sym_new_sample insp' \<and>
       (\<exists>k s. int k < count \<and> feed_samples su sps insp0 (take k x) = Some s \<and>
          \<not> sym_new_sample s \<and> feed_bulk_body su sps s (x ! k) = (False, insp'))"
    if "r = -1"
    using feed_bulk_loop_failed [of su x count sps 0 insp0 insp'] loop that by simp
  show ?thesis
    unfolding call loop using range emitted consumed failed
    by (intro exI [of _ insp'] exI [of _ r] conjI impI) simp_all
qed

text \<open>Scenario S5: period 10, 25 samples; the first call consumes 10 and emits one symbol.\<close>

lemma scenario_S5_first_call:
  "map_option (\<lambda>(insp', r). (r, sym_new_sample insp', symbols_emitted insp', sym_phase insp'))
     (suscan_inspector_feed_bulk su_plain (insp_plain\<lparr>sym_period := 10\<rparr>) (replicate 25 1) 25)
   = Some (10, True, 1, 0)"
  by (simp add: suscan_inspector_feed_bulk_def feed_bulk_loop.simps feed_bulk_body_def
      symbol_sampler_def su_plain_def insp_plain_def Let_def nth_Cons' numeral_eq_Suc)

theorem feed_bulk_one_symbol_witness:
  "(25 :: int) \<le> int (length (replicate 25 (1 :: complex))) \<and>
   (\<exists>insp'. suscan_inspector_feed_bulk su_plain (insp_plain\<lparr>sym_period := 10\<rparr>) (replicate 25 1) 25
              = Some (insp', 10) \<and>
            sym_new_sample insp' \<and>
            symbols_emitted insp' = symbols_emitted (insp_plain\<lparr>sym_period := 10\<rparr>) + 1)"
proof -
  have len: "(25 :: int) \<le> int (length (replicate 25 (1 :: complex)))" by simp
  from feed_bulk_one_symbol [OF len, where insp = "insp_plain\<lparr>sym_period := 10\<rparr>" and su = su_plain]
  obtain insp' r where
    call: "suscan_inspector_feed_bulk su_plain (insp_plain\<lparr>sym_period := 10\<rparr>) (replicate 25 1) 25
             = Some (insp', r)"
    and e: "symbols_emitted insp' =
              symbols_emitted (insp_plain\<lparr>sym_period := 10\<rparr>) + (if sym_new_sample insp' then 1 else 0)"
    by blast
  from scenario_S5_first_call call have "r = 10" "sym_new_sample insp'"
    by auto
  with call e len show ?thesis by auto
qed

lemma feed_samples_prefix:
  assumes "feed_samples su sps insp (take n x) = Some t" and "k < n" and "n \<le> length x"
  shows "\<exists>s s'. feed_samples su sps insp (take k x) = Some s \<and>
           feed_bulk_body su sps s (x ! k) = (True, s') \<and>
           feed_samples su sps insp (take (Suc k) x) = Some s'"
proof -
  have k: "k < length (take n x)" using assms(2,3) by simp
  have "take n x = take k (take n x) @ (take n x) ! k # drop (Suc k) (take n x)"
    using k by (rule id_take_nth_drop)
  then have split: "take n x = take k x @ x ! k # drop (Suc k) (take n x)"
    using assms(2) by (simp add: min_def)
  from assms(1) obtain s where s: "feed_samples su sps insp (take k x) = Some s"
    and rest: "feed_samples su sps s (x ! k # drop (Suc k) (take n x)) = Some t"
    by (subst (asm) split) (auto simp: feed_samples_append split: option.splits)
  from rest obtain s' where body: "feed_bulk_body su sps s (x ! k) = (True, s')"
    by (auto split: prod.splits bool.splits)
  have "take (Suc k) x = take k x @ [x ! k]"
    using assms(2,3) by (simp add: take_Suc_conv_app_nth)
  with s body have "feed_samples su sps insp (take (Suc k) x) = Some s'"
    by (simp add: feed_samples_append)
  with s body show ?thesis by blast
qed

text \<open>
  C3, as stated, fails where \<open>sym_phase\<close> is not below \<open>sym_period\<close> on entry (a state that
  \<open>SET_PARAMS\<close> with a higher baud rate leaves, see \<open>sampler_state_reachable\<close>).  With
  period 2, phase 3 and target 0 one step and a reduction modulo 2 give phase 0, so
  the sampler would fire on the first sample; the code subtracts one period, gets 2,
  does not fire, and the call consumes all three samples.
\<close>

theorem sampler_not_modulo_counterexample:
  "\<lfloor>spec_next_sym_phase 2 3 - 0 * 2\<rfloor> = 0 \<and>
   (\<exists>s. feed_samples su_plain 0 (insp_plain\<lparr>sym_period := 2, sym_phase := 3\<rparr>) [1] = Some s \<and>
        \<not> sym_new_sample s \<and> sym_phase s = 2 \<and> sym_phase s \<noteq> spec_next_sym_phase 2 3) \<and>
   map_option snd
     (suscan_inspector_feed_bulk su_plain (insp_plain\<lparr>sym_period := 2, sym_phase := 3\<rparr>) [1, 1, 1] 3)
     = Some 3"
  by (simp add: spec_next_sym_phase_def suscan_inspector_feed_bulk_def feed_bulk_loop.simps
      feed_bulk_body_def symbol_sampler_def su_plain_def insp_plain_def Let_def)

text \<open>
  C3, amended.  Let \<open>target = params.sym_phase * sym_period\<close> at entry.  If
  \<open>sym_period < 1\<close> the sampler never runs: whatever the buffer, the call emits no symbol,
  leaves \<open>sym_phase\<close> and \<open>sym_sampler_output\<close> as they were and \<open>sym_new_sample\<close> false, and
  consumes the whole buffer unless a feed fails.  If \<open>sym_period \<ge> 1\<close>, then at every
  consumed index \<open>k\<close> the sampler adds 1 to \<open>sym_phase\<close> and subtracts \<open>sym_period\<close> once if
  the sum has reached it (this is the reduction modulo \<open>sym_period\<close> when \<open>sym_phase\<close> was
  in \<open>[0, sym_period)\<close> before the sample); it fires at \<open>k\<close> exactly when
  \<open>floor (sym_phase - target) = 0\<close> for the new phase, and the value emitted then is
  \<open>0.5 * ((1 - alpha) * sym_last_sample + alpha * sample)\<close> with
  \<open>alpha = sym_phase - floor sym_phase\<close>, where \<open>sample\<close> is the value that the step
  stores in \<open>sym_last_sample\<close>.
\<close>

theorem symbol_sampler_rule:
  fixes insp :: "('det, 'nco, 'agc, 'pll, 'ts) suscan_inspector"
  assumes "count \<le> int (length x)"
  defines "target \<equiv> params_sym_phase (params insp) * sym_period insp"
    and "insp0 \<equiv> insp\<lparr>sym_new_sample := False\<rparr>"
  shows "\<exists>insp' r.
    suscan_inspector_feed_bulk su insp x count = Some (insp', r) \<and>
    (sym_period insp < 1 \<longrightarrow>
       \<not> sym_new_sample insp' \<and> symbols_emitted insp' = symbols_emitted insp \<and>
       sym_phase insp' = sym_phase insp \<and> sym_sampler_output insp' = sym_sampler_output insp \<and>
       (r = -1 \<or> r = max 0 count)) \<and>
    (sym_period insp \<ge> 1 \<and> r \<noteq> -1 \<longrightarrow>
       (\<forall>k<nat r. \<exists>s s'.
          feed_samples su (complex_of_real target) insp0 (take k x) = Some s \<and>
          feed_samples su (complex_of_real target) insp0 (take (Suc k) x) = Some s' \<and>
          sym_phase s' = next_sym_phase (sym_period insp) (sym_phase s) \<and>
          (0 \<le> sym_phase s \<and> sym_phase s < sym_period insp \<longrightarrow>
             sym_phase s' = spec_next_sym_phase (sym_period insp) (sym_phase s)) \<and>
          (sym_new_sample s' \<longleftrightarrow> \<lfloor>sym_phase s' - target\<rfloor> = 0) \<and>
          (sym_new_sample s' \<longrightarrow>
             sym_sampler_output s' =
               0.5 * (complex_of_real (1 - (sym_phase s' - of_int \<lfloor>sym_phase s'\<rfloor>))
                        * sym_last_sample s
                      + complex_of_real (sym_phase s' - of_int \<lfloor>sym_phase s'\<rfloor>)
                        * sym_last_sample s'))))"
proof -
  let ?sps = "complex_of_real target"
  have call: "suscan_inspector_feed_bulk su insp x count = feed_bulk_loop su x count ?sps 0 insp0"
    by (simp add: suscan_inspector_feed_bulk_def target_def insp0_def)
  from feed_bulk_loop_returns [of 0 count x su ?sps insp0] assms(1)
  obtain insp' r where loop: "feed_bulk_loop su x count ?sps 0 insp0 = Some (insp', r)"
    and range: "r = -1 \<or> (0 \<le> r \<and> r \<le> max 0 count)"
    by auto
  have f0: "\<not> sym_new_sample insp0" by (simp add: insp0_def)
  have off: "\<not> sym_new_sample insp' \<and> symbols_emitted insp' = symbols_emitted insp \<and>
       sym_phase insp' = sym_phase insp \<and> sym_sampler_output insp' = sym_sampler_output insp \<and>
       (r = -1 \<or> r = max 0 count)"
    if "sym_period insp < 1"
    using feed_bulk_loop_sampler_off [OF loop _ f0] that by (simp add: insp0_def)
  have on: "\<exists>s s'.
          feed_samples su ?sps insp0 (take k x) = Some s \<and>
          feed_samples su ?sps insp0 (take (Suc k) x) = Some s' \<and>
          sym_phase s' = next_sym_phase (sym_period insp) (sym_phase s) \<and>
          (0 \<le> sym_phase s \<and> sym_phase s < sym_period insp \<longrightarrow>
             sym_phase s' = spec_next_sym_phase (sym_period insp) (sym_phase s)) \<and>
          (sym_new_sample s' \<longleftrightarrow> \<lfloor>sym_phase s' - target\<rfloor> = 0) \<and>
          (sym_new_sample s' \<longrightarrow>
             sym_sampler_output s' =
               0.5 * (complex_of_real (1 - (sym_phase s' - of_int \<lfloor>sym_phase s'\<rfloor>))
                        * sym_last_sample s
                      + complex_of_real (sym_phase s' - of_int \<lfloor>sym_phase s'\<rfloor>)
                        * sym_last_sample s'))"
    if p: "sym_period insp \<ge> 1" and r: "r \<noteq> -1" and k: "k < nat r" for k
  proof -
    from feed_bulk_loop_consumed [OF loop r]
    have all: "feed_samples su ?sps insp0 (take (nat r) x) = Some insp'" by simp
    have "nat r \<le> length x" using range r assms(1) by auto
    from feed_samples_prefix [OF all k this]
    obtain s s' where s: "feed_samples su ?sps insp0 (take k x) = Some s"
      and body: "feed_bulk_body su ?sps s (x ! k) = (True, s')"
      and s': "feed_samples su ?sps insp0 (take (Suc k) x) = Some s'"
      by blast
    have ps: "sym_period s = sym_period insp"
      using feed_samples_frame [OF s] by (simp add: insp0_def)
    with p have p1: "sym_period s \<ge> 1" by simp
    note rule = feed_bulk_body_sampler_on [OF body p1]
    have ph: "sym_phase s' = next_sym_phase (sym_period insp) (sym_phase s)"
      using rule(1) ps by simp
    have md: "sym_phase s' = spec_next_sym_phase (sym_period insp) (sym_phase s)"
      if "0 \<le> sym_phase s \<and> sym_phase s < sym_period insp"
      using next_sym_phase_modulo(1) [OF p, of "sym_phase s"] that ph by simp
    have fire: "sym_new_sample s' \<longleftrightarrow> \<lfloor>sym_phase s' - target\<rfloor> = 0"
      using rule(2) by simp
    from s s' ph md fire rule(3) show ?thesis by blast
  qed
  have "sym_period insp \<ge> 1 \<and> r \<noteq> -1 \<longrightarrow> (\<forall>k<nat r. \<exists>s s'.
          feed_samples su ?sps insp0 (take k x) = Some s \<and>
          feed_samples su ?sps insp0 (take (Suc k) x) = Some s' \<and>
          sym_phase s' = next_sym_phase (sym_period insp) (sym_phase s) \<and>
          (0 \<le> sym_phase s \<and> sym_phase s < sym_period insp \<longrightarrow>
             sym_phase s' = spec_next_sym_phase (sym_period insp) (sym_phase s)) \<and>
          (sym_new_sample s' \<longleftrightarrow> \<lfloor>sym_phase s' - target\<rfloor> = 0) \<and>
          (sym_new_sample s' \<longrightarrow>
             sym_sampler_output s' =
               0.5 * (complex_of_real (1 - (sym_phase s' - of_int \<lfloor>sym_phase s'\<rfloor>))
                        * sym_last_sample s
                      + complex_of_real (sym_phase s' - of_int \<lfloor>sym_phase s'\<rfloor>)
                        * sym_last_sample s')))"
    using on by blast
  with off show ?thesis
    unfolding call loop
    by (intro exI [of _ insp'] exI [of _ r] conjI) (rule refl, blast, assumption)
qed

theorem symbol_sampler_rule_witness:
  "(3 :: int) \<le> int (length [1, 2, 3 :: complex]) \<and>
   (\<exists>insp'. suscan_inspector_feed_bulk su_plain (insp_plain\<lparr>sym_period := 5 / 2\<rparr>) [1, 2, 3] 3
              = Some (insp', 3) \<and>
            sym_phase insp' = 1 / 2 \<and> sym_new_sample insp' \<and>
            sym_sampler_output insp' = 0.5 * (complex_of_real (1 - 1 / 2) * (2 * 2 * 1.4142)
                                              + complex_of_real (1 / 2) * (2 * 3 * 1.4142)))"
proof -
  have len: "(3 :: int) \<le> int (length [1, 2, 3 :: complex])" by simp
  from symbol_sampler_rule [OF len, where insp = "insp_plain\<lparr>sym_period := 5 / 2\<rparr>" and su = su_plain]
  obtain insp' r where
    call: "suscan_inspector_feed_bulk su_plain (insp_plain\<lparr>sym_period := 5 / 2\<rparr>) [1, 2, 3] 3
             = Some (insp', r)"
    by blast
  have "suscan_inspector_feed_bulk su_plain (insp_plain\<lparr>sym_period := 5 / 2\<rparr>) [1, 2, 3] 3
          = Some (insp_plain\<lparr>sym_period := 5 / 2, fac_baud_det := 3, nln_baud_det := 3,
                    sym_phase := 1 / 2, sym_new_sample := True,
                    sym_sampler_output := 0.5 * (complex_of_real (1 - 1 / 2) * (2 * 2 * 1.4142)
                                              + complex_of_real (1 / 2) * (2 * 3 * 1.4142)),
                    symbols_emitted := 1, sym_last_sample := 2 * 3 * 1.4142\<rparr>, 3)"
    by (simp add: suscan_inspector_feed_bulk_def feed_bulk_loop.simps feed_bulk_body_def
        symbol_sampler_def su_plain_def insp_plain_def Let_def)
  with call len show ?thesis by auto
qed

text \<open>
  C9, as stated, fails: the call clears \<open>sym_new_sample\<close> before the loop, so an inspector
  that enters with the flag set (it stays set after a call that emitted a symbol) is
  modified even when \<open>count\<close> is 0.
\<close>

theorem feed_bulk_zero_count_counterexample:
  "suscan_inspector_feed_bulk su_plain (insp_plain\<lparr>sym_new_sample := True\<rparr>) [] 0
     \<noteq> Some (insp_plain\<lparr>sym_new_sample := True\<rparr>, 0)"
  by (simp add: suscan_inspector_feed_bulk_def feed_bulk_loop.simps insp_plain_def)

text \<open>
  C9, amended.  With \<open>count = 0\<close> the call returns 0 and the inspector is the one it was
  given with \<open>sym_new_sample\<close> set to false: the baud detectors, NCO, AGC, Costas loops,
  \<open>sym_phase\<close>, \<open>sym_last_sample\<close>, \<open>sym_sampler_output\<close> and every other field are unchanged.
\<close>

theorem feed_bulk_zero_count:
  "suscan_inspector_feed_bulk su insp x 0 = Some (insp\<lparr>sym_new_sample := False\<rparr>, 0)"
  by (simp add: suscan_inspector_feed_bulk_def feed_bulk_loop_stop)

section \<open>Analyzer: proofs\<close>

subsection \<open>Handle lookup\<close>

lemma get_inspector_iff:
  "suscan_analyzer_get_inspector an h = Some (Some a) \<longleftrightarrow>
     0 \<le> h \<and> h < int (length (inspector_list an)) \<and> inspector_list an ! nat h = Some a \<and>
     (\<exists>i. inspector_mem an a = Some i \<and> state i = SUSCAN_ASYNC_STATE_RUNNING)"
  by (auto simp: suscan_analyzer_get_inspector_def split: option.splits)

lemma get_inspector_invalid:
  "h < 0 \<or> h \<ge> int (length (inspector_list an)) \<or> inspector_list an ! nat h = None \<Longrightarrow>
   suscan_analyzer_get_inspector an h = Some None"
  by (auto simp: suscan_analyzer_get_inspector_def)

lemma get_inspector_not_running:
  "0 \<le> h \<Longrightarrow> h < int (length (inspector_list an)) \<Longrightarrow> inspector_list an ! nat h = Some a \<Longrightarrow>
   inspector_mem an a = Some i \<Longrightarrow> state i \<noteq> SUSCAN_ASYNC_STATE_RUNNING \<Longrightarrow>
   suscan_analyzer_get_inspector an h = Some None"
  by (auto simp: suscan_analyzer_get_inspector_def)

lemma parse_inspector_msg_reply_result:
  assumes "mq_holds (msg_mem an) (mq_out an) as xs" and "msg_mem an (msg_brk an) = None"
    and "case insp of
           None \<Rightarrow> msg1 = msg
         | Some a \<Rightarrow> (\<exists>i. inspector_mem an a = Some i \<and>
                        msg1 = msg\<lparr>msg_inspector_id := inspector_id (params i)\<rparr>)"
  shows "\<exists>mem' mq'.
           parse_inspector_msg_reply env an ch msg insp =
             Some (an\<lparr>msg_mem := mem', mq_out := mq',
                      msg_brk := (if malloc_ok ch then Suc (msg_brk an) else msg_brk an)\<rparr>,
                   msg1, malloc_ok ch) \<and>
           (if malloc_ok ch
            then mq_holds mem' mq' (as @ [msg_brk an])
                   (xs @ [(SUSCAN_ANALYZER_MESSAGE_TYPE_INSPECTOR env, Inspector_msg msg1)]) \<and>
                 dom mem' = insert (msg_brk an) (dom (msg_mem an))
            else mem' = msg_mem an \<and> mq' = mq_out an)"
proof -
  have pre: "(case insp of
              None \<Rightarrow> Some msg
            | Some a \<Rightarrow>
                (case inspector_mem an a of
                   None \<Rightarrow> None
                 | Some i \<Rightarrow> Some (msg\<lparr>msg_inspector_id := inspector_id (params i)\<rparr>))) = Some msg1"
    using assms(3) by (auto split: option.splits)
  show ?thesis
  proof (cases "malloc_ok ch")
    case True
    from assms(2) have fresh: "msg_brk an \<notin> dom (msg_mem an)" by (simp add: domIff)
    from suscan_mq_write_holds [OF assms(1) fresh,
        of "SUSCAN_ANALYZER_MESSAGE_TYPE_INSPECTOR env" "Inspector_msg msg1"]
    obtain mem' mq' where
      w: "suscan_mq_write (msg_mem an) (mq_out an) (Some (msg_brk an))
            (SUSCAN_ANALYZER_MESSAGE_TYPE_INSPECTOR env) (Inspector_msg msg1) = Some (mem', mq', True)"
      and h: "mq_holds mem' mq' (as @ [msg_brk an])
                (xs @ [(SUSCAN_ANALYZER_MESSAGE_TYPE_INSPECTOR env, Inspector_msg msg1)])"
      and d: "dom mem' = insert (msg_brk an) (dom (msg_mem an))"
      by blast
    show ?thesis
      unfolding parse_inspector_msg_reply_def pre using True w h d
      by (intro exI [of _ mem'] exI [of _ mq']) simp
  next
    case False
    show ?thesis
      unfolding parse_inspector_msg_reply_def pre using False
      by (intro exI [of _ "msg_mem an"] exI [of _ "mq_out an"])
        (simp add: suscan_mq_write_failed)
  qed
qed


text \<open>
  C6.  \<open>suscan_analyzer_get_inspector\<close> returns an inspector exactly for a handle inside the
  table whose slot is not a tombstone and whose inspector is Running.  Hence a GET_INFO,
  GET_PARAMS, SET_PARAMS or CLOSE request with a negative handle (such as \<open>-1\<close>), a handle
  from the table length on, or a tombstoned handle gets the kind WRONG_HANDLE: the
  handler leaves table and inspectors alone, turns the message into a WRONG_HANDLE
  response, and appends it to the output queue whenever the queue can allocate a header.
\<close>

theorem wrong_handle_lookup:
  "(suscan_analyzer_get_inspector an h = Some (Some a) \<longleftrightarrow>
      0 \<le> h \<and> h < int (length (inspector_list an)) \<and> inspector_list an ! nat h = Some a \<and>
      (\<exists>i. inspector_mem an a = Some i \<and> state i = SUSCAN_ASYNC_STATE_RUNNING)) \<and>
   (kind msg \<in> {SUSCAN_ANALYZER_INSPECTOR_MSGKIND_GET_INFO,
                 SUSCAN_ANALYZER_INSPECTOR_MSGKIND_GET_PARAMS,
                 SUSCAN_ANALYZER_INSPECTOR_MSGKIND_PARAMS,
                 SUSCAN_ANALYZER_INSPECTOR_MSGKIND_CLOSE} \<and>
    (handle msg < 0 \<or> handle msg \<ge> int (length (inspector_list an)) \<or>
     inspector_list an ! nat (handle msg) = None) \<and>
    mq_holds (msg_mem an) (mq_out an) as xs \<and> msg_mem an (msg_brk an) = None \<longrightarrow>
    (\<exists>an' msg'.
       suscan_analyzer_parse_inspector_msg su env an ch msg = Some (an', msg', malloc_ok ch) \<and>
       msg' = msg\<lparr>kind := SUSCAN_ANALYZER_INSPECTOR_MSGKIND_WRONG_HANDLE\<rparr> \<and>
       inspector_list an' = inspector_list an \<and> inspector_mem an' = inspector_mem an \<and>
       (malloc_ok ch \<longrightarrow>
          mq_holds (msg_mem an') (mq_out an') (as @ [msg_brk an])
            (xs @ [(SUSCAN_ANALYZER_MESSAGE_TYPE_INSPECTOR env, Inspector_msg msg')]))))"
proof (intro conjI impI)
  show "suscan_analyzer_get_inspector an h = Some (Some a) \<longleftrightarrow>
      0 \<le> h \<and> h < int (length (inspector_list an)) \<and> inspector_list an ! nat h = Some a \<and>
      (\<exists>i. inspector_mem an a = Some i \<and> state i = SUSCAN_ASYNC_STATE_RUNNING)"
    by (rule get_inspector_iff)
next
  let ?msg' = "msg\<lparr>kind := SUSCAN_ANALYZER_INSPECTOR_MSGKIND_WRONG_HANDLE\<rparr>"
  assume a: "kind msg \<in> {SUSCAN_ANALYZER_INSPECTOR_MSGKIND_GET_INFO,
                 SUSCAN_ANALYZER_INSPECTOR_MSGKIND_GET_PARAMS,
                 SUSCAN_ANALYZER_INSPECTOR_MSGKIND_PARAMS,
                 SUSCAN_ANALYZER_INSPECTOR_MSGKIND_CLOSE} \<and>
    (handle msg < 0 \<or> handle msg \<ge> int (length (inspector_list an)) \<or>
     inspector_list an ! nat (handle msg) = None) \<and>
    mq_holds (msg_mem an) (mq_out an) as xs \<and> msg_mem an (msg_brk an) = None"
  then have "handle msg < 0 \<or> handle msg \<ge> int (length (inspector_list an)) \<or>
     inspector_list an ! nat (handle msg) = None"
    by simp
  then have g: "suscan_analyzer_get_inspector an (handle msg) = Some None"
    by (rule get_inspector_invalid)
  from a have q: "mq_holds (msg_mem an) (mq_out an) as xs" "msg_mem an (msg_brk an) = None"
    by simp_all
  from parse_inspector_msg_reply_result [OF q, where insp = None and msg = ?msg'
      and ?msg1.0 = ?msg' and env = env and ch = ch]
  obtain mem' mq' where
    r: "parse_inspector_msg_reply env an ch ?msg' None =
          Some (an\<lparr>msg_mem := mem', mq_out := mq',
                   msg_brk := (if malloc_ok ch then Suc (msg_brk an) else msg_brk an)\<rparr>,
                ?msg', malloc_ok ch)"
    and hif: "if malloc_ok ch
            then mq_holds mem' mq' (as @ [msg_brk an])
                   (xs @ [(SUSCAN_ANALYZER_MESSAGE_TYPE_INSPECTOR env, Inspector_msg ?msg')]) \<and>
                 dom mem' = insert (msg_brk an) (dom (msg_mem an))
            else mem' = msg_mem an \<and> mq' = mq_out an"
    by auto
  from hif have h: "malloc_ok ch \<Longrightarrow> mq_holds mem' mq' (as @ [msg_brk an])
                   (xs @ [(SUSCAN_ANALYZER_MESSAGE_TYPE_INSPECTOR env, Inspector_msg ?msg')])"
    by simp
  from a have "suscan_analyzer_parse_inspector_msg su env an ch msg =
                 parse_inspector_msg_reply env an ch ?msg' None"
    by (auto simp: suscan_analyzer_parse_inspector_msg_def g)
  with r h show "\<exists>an' msg'.
       suscan_analyzer_parse_inspector_msg su env an ch msg = Some (an', msg', malloc_ok ch) \<and>
       msg' = msg\<lparr>kind := SUSCAN_ANALYZER_INSPECTOR_MSGKIND_WRONG_HANDLE\<rparr> \<and>
       inspector_list an' = inspector_list an \<and> inspector_mem an' = inspector_mem an \<and>
       (malloc_ok ch \<longrightarrow>
          mq_holds (msg_mem an') (mq_out an') (as @ [msg_brk an])
            (xs @ [(SUSCAN_ANALYZER_MESSAGE_TYPE_INSPECTOR env, Inspector_msg msg')]))"
    by simp
qed

theorem wrong_handle_lookup_witness:
  "suscan_analyzer_get_inspector analyzer_one 0 = Some (Some 0) \<and>
   handle (request SUSCAN_ANALYZER_INSPECTOR_MSGKIND_GET_INFO 45 (-1)) < 0 \<and>
   mq_holds (msg_mem analyzer_one) (mq_out analyzer_one) [] [] \<and>
   msg_mem analyzer_one (msg_brk analyzer_one) = None \<and>
   (\<exists>an' msg'.
      suscan_analyzer_parse_inspector_msg su_plain env_plain analyzer_one all_ok
        (request SUSCAN_ANALYZER_INSPECTOR_MSGKIND_GET_INFO 45 (-1)) = Some (an', msg', True) \<and>
      kind msg' = SUSCAN_ANALYZER_INSPECTOR_MSGKIND_WRONG_HANDLE \<and>
      inspector_list an' = [Some 0] \<and>
      mq_holds (msg_mem an') (mq_out an') [0] [(6, Inspector_msg msg')])"
proof -
  let ?msg = "request SUSCAN_ANALYZER_INSPECTOR_MSGKIND_GET_INFO 45 (-1)"
  have h: "mq_holds (msg_mem analyzer_one) (mq_out analyzer_one) [] []"
    by (simp add: analyzer_one_def analyzer_plain_def mq_holds_init)
  have pre: "kind ?msg \<in> {SUSCAN_ANALYZER_INSPECTOR_MSGKIND_GET_INFO,
                 SUSCAN_ANALYZER_INSPECTOR_MSGKIND_GET_PARAMS,
                 SUSCAN_ANALYZER_INSPECTOR_MSGKIND_PARAMS,
                 SUSCAN_ANALYZER_INSPECTOR_MSGKIND_CLOSE}"
    "handle ?msg < 0" "msg_mem analyzer_one (msg_brk analyzer_one) = None"
    "malloc_ok all_ok" "msg_brk analyzer_one = 0" "inspector_list analyzer_one = [Some 0]"
    "SUSCAN_ANALYZER_MESSAGE_TYPE_INSPECTOR env_plain = 6"
    by (simp_all add: analyzer_one_def analyzer_plain_def request_def all_ok_def env_plain_def)
  have look: "0 \<le> (0::int)" "(0::int) < int (length (inspector_list analyzer_one))"
    "inspector_list analyzer_one ! nat 0 = Some 0"
    "inspector_mem analyzer_one 0 = Some insp_plain"
    "state insp_plain = SUSCAN_ASYNC_STATE_RUNNING"
    by (simp_all add: analyzer_one_def analyzer_plain_def insp_plain_def)
  note inst = wrong_handle_lookup [of analyzer_one 0 0 ?msg "[]" "[]" su_plain env_plain all_ok]
  from inst look have 1: "suscan_analyzer_get_inspector analyzer_one 0 = Some (Some 0)"
    by blast
  from inst pre(1,2,3) h
  obtain an' msg' where r:
    "suscan_analyzer_parse_inspector_msg su_plain env_plain analyzer_one all_ok ?msg =
       Some (an', msg', malloc_ok all_ok)"
    "msg' = ?msg\<lparr>kind := SUSCAN_ANALYZER_INSPECTOR_MSGKIND_WRONG_HANDLE\<rparr>"
    "inspector_list an' = inspector_list analyzer_one"
    "malloc_ok all_ok \<longrightarrow>
       mq_holds (msg_mem an') (mq_out an') ([] @ [msg_brk analyzer_one])
         ([] @ [(SUSCAN_ANALYZER_MESSAGE_TYPE_INSPECTOR env_plain, Inspector_msg msg')])"
    by blast
  from r(1) pre(4) have 2:
    "suscan_analyzer_parse_inspector_msg su_plain env_plain analyzer_one all_ok ?msg =
       Some (an', msg', True)"
    by simp
  from r(2) have 3: "kind msg' = SUSCAN_ANALYZER_INSPECTOR_MSGKIND_WRONG_HANDLE"
    by simp
  from r(3) pre(6) have 4: "inspector_list an' = [Some 0]"
    by simp
  from r(4) pre(4,5,7) have 5: "mq_holds (msg_mem an') (mq_out an') [0] [(6, Inspector_msg msg')]"
    by simp
  from 1 pre(2) h pre(3) 2 3 4 5 show ?thesis
    by blast
qed

subsection \<open>CLOSE\<close>

lemmas handler_defs =
  suscan_analyzer_parse_inspector_msg_def parse_inspector_msg_reply_def
  suscan_analyzer_get_inspector_def suscan_analyzer_register_inspector_def
  suscan_analyzer_dispose_inspector_handle_def suscan_inspector_new_def
  suscan_inspector_destroy_def PTR_LIST_APPEND_CHECK_def SU_FALSE_def SU_ABS2NORM_BAUD_def
  suscan_mq_write_def suscan_msg_new_def suscan_mq_write_msg_def suscan_mq_push_def
  set_next_def suscan_mq_init_def

lemmas example_defs =
  su_plain_def env_plain_def analyzer_plain_def all_ok_def cb_all_ok_def request_def
  insp_plain_def

text \<open>
  C1, as stated, fails for a registered inspector that is neither Running nor Halted.
  OPEN on an empty analyzer gives handle 0; the first CLOSE for it is answered CLOSE and
  leaves the inspector Halting; the second CLOSE for the same handle, whose table slot
  still holds the inspector, is answered WRONG_HANDLE, not CLOSE, and changes nothing.
\<close>

theorem close_twice_counterexample:
  "(case suscan_analyzer_parse_inspector_msg su_plain env_plain analyzer_plain all_ok
           (request SUSCAN_ANALYZER_INSPECTOR_MSGKIND_OPEN 42 (-1)) of
      None \<Rightarrow> None
    | Some (an1, m1, ok1) \<Rightarrow>
        (case suscan_analyzer_parse_inspector_msg su_plain env_plain an1 all_ok
                (request SUSCAN_ANALYZER_INSPECTOR_MSGKIND_CLOSE 43 (handle m1)) of
           None \<Rightarrow> None
         | Some (an2, m2, ok2) \<Rightarrow>
             (case suscan_analyzer_parse_inspector_msg su_plain env_plain an2 all_ok
                     (request SUSCAN_ANALYZER_INSPECTOR_MSGKIND_CLOSE 44 (handle m1)) of
                None \<Rightarrow> None
              | Some (an3, m3, ok3) \<Rightarrow>
                  Some (kind m1, handle m1, kind m2, kind m3, inspector_list an3,
                        map_option state (inspector_mem an3 0))))) =
   Some (SUSCAN_ANALYZER_INSPECTOR_MSGKIND_OPEN, 0, SUSCAN_ANALYZER_INSPECTOR_MSGKIND_CLOSE,
         SUSCAN_ANALYZER_INSPECTOR_MSGKIND_WRONG_HANDLE, [Some 0],
         Some SUSCAN_ASYNC_STATE_HALTING)"
  by (simp add: handler_defs example_defs Let_def)

lemma close_running:
  assumes "suscan_analyzer_get_inspector an (handle msg) = Some (Some a)"
    and "inspector_mem an a = Some i"
    and "kind msg = SUSCAN_ANALYZER_INSPECTOR_MSGKIND_CLOSE"
    and "mq_holds (msg_mem an) (mq_out an) as xs" and "msg_mem an (msg_brk an) = None"
  shows "\<exists>an' msg'.
       suscan_analyzer_parse_inspector_msg su env an ch msg = Some (an', msg', malloc_ok ch) \<and>
       msg' = msg\<lparr>msg_inspector_id := inspector_id (params i)\<rparr> \<and>
       inspector_list an' = inspector_list an \<and>
       inspector_mem an' = (inspector_mem an)(a \<mapsto> i\<lparr>state := SUSCAN_ASYNC_STATE_HALTING\<rparr>) \<and>
       worker_tasks an' = worker_tasks an \<and> insp_brk an' = insp_brk an \<and>
       msg_brk an' = (if malloc_ok ch then Suc (msg_brk an) else msg_brk an) \<and>
       (if malloc_ok ch
        then mq_holds (msg_mem an') (mq_out an') (as @ [msg_brk an])
               (xs @ [(SUSCAN_ANALYZER_MESSAGE_TYPE_INSPECTOR env, Inspector_msg msg')]) \<and>
             dom (msg_mem an') = insert (msg_brk an) (dom (msg_mem an))
        else msg_mem an' = msg_mem an \<and> mq_out an' = mq_out an)"
proof -
  let ?msg' = "msg\<lparr>msg_inspector_id := inspector_id (params i)\<rparr>"
  let ?an1 = "an\<lparr>inspector_mem := (inspector_mem an)(a \<mapsto> i\<lparr>state := SUSCAN_ASYNC_STATE_HALTING\<rparr>)\<rparr>"
  from assms(1) assms(2) have run: "state i = SUSCAN_ASYNC_STATE_RUNNING"
    by (auto simp: get_inspector_iff)
  have q: "mq_holds (msg_mem ?an1) (mq_out ?an1) as xs" "msg_mem ?an1 (msg_brk ?an1) = None"
    using assms(4,5) by simp_all
  from parse_inspector_msg_reply_result [OF q, where insp = None and msg = ?msg'
      and ?msg1.0 = ?msg' and env = env and ch = ch]
  obtain mem' mq' where
    r: "parse_inspector_msg_reply env ?an1 ch ?msg' None =
          Some (?an1\<lparr>msg_mem := mem', mq_out := mq',
                   msg_brk := (if malloc_ok ch then Suc (msg_brk ?an1) else msg_brk ?an1)\<rparr>,
                ?msg', malloc_ok ch)"
    and hif: "if malloc_ok ch
            then mq_holds mem' mq' (as @ [msg_brk ?an1])
                   (xs @ [(SUSCAN_ANALYZER_MESSAGE_TYPE_INSPECTOR env, Inspector_msg ?msg')]) \<and>
                 dom mem' = insert (msg_brk ?an1) (dom (msg_mem ?an1))
            else mem' = msg_mem ?an1 \<and> mq' = mq_out ?an1"
    by auto
  have "suscan_analyzer_parse_inspector_msg su env an ch msg =
          parse_inspector_msg_reply env ?an1 ch ?msg' None"
    using assms(1,2,3) run by (simp add: suscan_analyzer_parse_inspector_msg_def Let_def)
  with r hif show ?thesis by (auto split: if_splits)
qed

lemma close_not_running:
  assumes "0 \<le> handle msg" and "handle msg < int (length (inspector_list an))"
    and "inspector_list an ! nat (handle msg) = Some a" and "inspector_mem an a = Some i"
    and "state i \<noteq> SUSCAN_ASYNC_STATE_RUNNING"
    and "kind msg = SUSCAN_ANALYZER_INSPECTOR_MSGKIND_CLOSE"
    and "mq_holds (msg_mem an) (mq_out an) as xs" and "msg_mem an (msg_brk an) = None"
  shows "\<exists>an' msg'.
       suscan_analyzer_parse_inspector_msg su env an ch msg = Some (an', msg', malloc_ok ch) \<and>
       msg' = msg\<lparr>kind := SUSCAN_ANALYZER_INSPECTOR_MSGKIND_WRONG_HANDLE\<rparr> \<and>
       inspector_list an' = inspector_list an \<and> inspector_mem an' = inspector_mem an"
proof -
  let ?msg' = "msg\<lparr>kind := SUSCAN_ANALYZER_INSPECTOR_MSGKIND_WRONG_HANDLE\<rparr>"
  have g: "suscan_analyzer_get_inspector an (handle msg) = Some None"
    using assms(1-5) by (rule get_inspector_not_running)
  from parse_inspector_msg_reply_result [OF assms(7,8), where insp = None and msg = ?msg'
      and ?msg1.0 = ?msg' and env = env and ch = ch]
  obtain mem' mq' where
    r: "parse_inspector_msg_reply env an ch ?msg' None =
          Some (an\<lparr>msg_mem := mem', mq_out := mq',
                   msg_brk := (if malloc_ok ch then Suc (msg_brk an) else msg_brk an)\<rparr>,
                ?msg', malloc_ok ch)"
    by auto
  have "suscan_analyzer_parse_inspector_msg su env an ch msg =
          parse_inspector_msg_reply env an ch ?msg' None"
    using assms(6) g by (simp add: suscan_analyzer_parse_inspector_msg_def)
  with r show ?thesis by simp
qed

text \<open>
  C1, amended.  Take a CLOSE request whose handle refers to a registered inspector.  If
  the inspector is Running, the handler sets its state to Halting, leaves the table
  slot in place, and the response kind is CLOSE.  If the inspector is Halting (it was
  closed before), the handler changes neither the table nor the inspector and the
  response kind is WRONG_HANDLE.  (Nothing is said for a Halted inspector.)
\<close>

theorem close_registered_inspector:
  assumes "0 \<le> handle msg" and "handle msg < int (length (inspector_list an))"
    and "inspector_list an ! nat (handle msg) = Some a" and "inspector_mem an a = Some i"
    and "kind msg = SUSCAN_ANALYZER_INSPECTOR_MSGKIND_CLOSE"
    and "mq_holds (msg_mem an) (mq_out an) as xs" and "msg_mem an (msg_brk an) = None"
  shows "(state i = SUSCAN_ASYNC_STATE_RUNNING \<longrightarrow>
            (\<exists>an' msg'.
               suscan_analyzer_parse_inspector_msg su env an ch msg = Some (an', msg', malloc_ok ch) \<and>
               kind msg' = SUSCAN_ANALYZER_INSPECTOR_MSGKIND_CLOSE \<and>
               inspector_list an' = inspector_list an \<and>
               inspector_mem an' =
                 (inspector_mem an)(a \<mapsto> i\<lparr>state := SUSCAN_ASYNC_STATE_HALTING\<rparr>))) \<and>
         (state i = SUSCAN_ASYNC_STATE_HALTING \<longrightarrow>
            (\<exists>an' msg'.
               suscan_analyzer_parse_inspector_msg su env an ch msg = Some (an', msg', malloc_ok ch) \<and>
               kind msg' = SUSCAN_ANALYZER_INSPECTOR_MSGKIND_WRONG_HANDLE \<and>
               inspector_list an' = inspector_list an \<and>
               inspector_mem an' = inspector_mem an))"
proof (intro conjI impI)
  assume run: "state i = SUSCAN_ASYNC_STATE_RUNNING"
  with assms(1-4) have g: "suscan_analyzer_get_inspector an (handle msg) = Some (Some a)"
    by (simp add: get_inspector_iff)
  from close_running [OF g assms(4,5,6,7), of su env ch] assms(5)
  show "\<exists>an' msg'.
          suscan_analyzer_parse_inspector_msg su env an ch msg = Some (an', msg', malloc_ok ch) \<and>
          kind msg' = SUSCAN_ANALYZER_INSPECTOR_MSGKIND_CLOSE \<and>
          inspector_list an' = inspector_list an \<and>
          inspector_mem an' = (inspector_mem an)(a \<mapsto> i\<lparr>state := SUSCAN_ASYNC_STATE_HALTING\<rparr>)"
    by auto
next
  assume "state i = SUSCAN_ASYNC_STATE_HALTING"
  then have nr: "state i \<noteq> SUSCAN_ASYNC_STATE_RUNNING" by simp
  from close_not_running [OF assms(1-4) nr assms(5,6,7), of su env ch]
  show "\<exists>an' msg'.
          suscan_analyzer_parse_inspector_msg su env an ch msg = Some (an', msg', malloc_ok ch) \<and>
          kind msg' = SUSCAN_ANALYZER_INSPECTOR_MSGKIND_WRONG_HANDLE \<and>
          inspector_list an' = inspector_list an \<and> inspector_mem an' = inspector_mem an"
    by auto
qed

theorem close_registered_inspector_witness:
  "0 \<le> handle (request SUSCAN_ANALYZER_INSPECTOR_MSGKIND_CLOSE 43 0) \<and>
   handle (request SUSCAN_ANALYZER_INSPECTOR_MSGKIND_CLOSE 43 0)
     < int (length (inspector_list analyzer_one)) \<and>
   inspector_list analyzer_one ! nat (handle (request SUSCAN_ANALYZER_INSPECTOR_MSGKIND_CLOSE 43 0))
     = Some 0 \<and>
   inspector_mem analyzer_one 0 = Some insp_plain \<and>
   mq_holds (msg_mem analyzer_one) (mq_out analyzer_one) [] [] \<and>
   msg_mem analyzer_one (msg_brk analyzer_one) = None \<and>
   (\<exists>an' msg'.
      suscan_analyzer_parse_inspector_msg su_plain env_plain analyzer_one all_ok
        (request SUSCAN_ANALYZER_INSPECTOR_MSGKIND_CLOSE 43 0) = Some (an', msg', True) \<and>
      kind msg' = SUSCAN_ANALYZER_INSPECTOR_MSGKIND_CLOSE \<and>
      inspector_list an' = [Some 0] \<and>
      inspector_mem an' = [0 \<mapsto> insp_plain\<lparr>state := SUSCAN_ASYNC_STATE_HALTING\<rparr>])"
proof -
  have h: "mq_holds (msg_mem analyzer_one) (mq_out analyzer_one) [] []"
    by (simp add: analyzer_one_def analyzer_plain_def mq_holds_init)
  have pre: "0 \<le> handle (request SUSCAN_ANALYZER_INSPECTOR_MSGKIND_CLOSE 43 0)"
    "handle (request SUSCAN_ANALYZER_INSPECTOR_MSGKIND_CLOSE 43 0)
       < int (length (inspector_list analyzer_one))"
    "inspector_list analyzer_one ! nat (handle (request SUSCAN_ANALYZER_INSPECTOR_MSGKIND_CLOSE 43 0))
       = Some 0"
    "inspector_mem analyzer_one 0 = Some insp_plain"
    "kind (request SUSCAN_ANALYZER_INSPECTOR_MSGKIND_CLOSE 43 0) = SUSCAN_ANALYZER_INSPECTOR_MSGKIND_CLOSE"
    "msg_mem analyzer_one (msg_brk analyzer_one) = None"
    by (simp_all add: analyzer_one_def analyzer_plain_def request_def)
  have st: "state insp_plain = SUSCAN_ASYNC_STATE_RUNNING"
    by (simp add: insp_plain_def)
  from close_registered_inspector [OF pre(1-5) h pre(6), of su_plain env_plain all_ok] st
  obtain an' msg' where
    "suscan_analyzer_parse_inspector_msg su_plain env_plain analyzer_one all_ok
        (request SUSCAN_ANALYZER_INSPECTOR_MSGKIND_CLOSE 43 0) = Some (an', msg', malloc_ok all_ok)"
    "kind msg' = SUSCAN_ANALYZER_INSPECTOR_MSGKIND_CLOSE"
    "inspector_list an' = inspector_list analyzer_one"
    "inspector_mem an' =
       (inspector_mem analyzer_one)(0 \<mapsto> insp_plain\<lparr>state := SUSCAN_ASYNC_STATE_HALTING\<rparr>)"
    by auto
  then show ?thesis
    using pre h by (auto simp: all_ok_def analyzer_one_def)
qed

text \<open>
  The branch of CLOSE for a Halted inspector (lines 462-470) is never taken: the lookup
  before it has already answered WRONG_HANDLE for every inspector that is not Running,
  so a Halted inspector keeps its slot and its memory.
\<close>

lemma close_halted_not_reaped:
  assumes "0 \<le> handle msg" and "handle msg < int (length (inspector_list an))"
    and "inspector_list an ! nat (handle msg) = Some a" and "inspector_mem an a = Some i"
    and "state i = SUSCAN_ASYNC_STATE_HALTED"
    and "kind msg = SUSCAN_ANALYZER_INSPECTOR_MSGKIND_CLOSE"
    and "mq_holds (msg_mem an) (mq_out an) as xs" and "msg_mem an (msg_brk an) = None"
  shows "\<exists>an' msg'.
       suscan_analyzer_parse_inspector_msg su env an ch msg = Some (an', msg', malloc_ok ch) \<and>
       kind msg' = SUSCAN_ANALYZER_INSPECTOR_MSGKIND_WRONG_HANDLE \<and>
       inspector_list an' = inspector_list an \<and> inspector_mem an' = inspector_mem an"
proof -
  from assms(5) have nr: "state i \<noteq> SUSCAN_ASYNC_STATE_RUNNING" by simp
  from close_not_running [OF assms(1-4) nr assms(6,7,8), of su env ch]
  show ?thesis by auto
qed

subsection \<open>SET_PARAMS\<close>

text \<open>
  C7.  A SET_PARAMS request (kind PARAMS) whose handle resolves to a Running inspector
  with message parameters \<open>p\<close>: the handler stores \<open>p\<close> in \<open>insp.params\<close>; sets \<open>sym_period\<close>
  to \<open>1 / SU_ABS2NORM_BAUD(fs, p.baud)\<close>, which is \<open>fs / p.baud\<close> samples, when \<open>p.baud > 0\<close> and
  to 0 otherwise; sets the NCO frequency to \<open>SU_ABS2NORM_FREQ(fs, p.fc_off)\<close>; and sets
  \<open>phase\<close> to \<open>exp(i * p.fc_phi)\<close>, a complex number of modulus 1.  No other field of the
  inspector changes and the response kind is PARAMS.  (\<open>fs\<close> is the sample rate of the
  autocorrelation detector; the arithmetic is exact here.)
\<close>

theorem set_params_updates_inspector:
  fixes su :: "('det, 'nco, 'agc, 'pll) sigutils"
    and an :: "('det, 'nco, 'agc, 'pll, 'ts) suscan_analyzer"
  assumes "suscan_analyzer_get_inspector an (handle msg) = Some (Some a)"
    and "inspector_mem an a = Some i"
    and "kind msg = SUSCAN_ANALYZER_INSPECTOR_MSGKIND_PARAMS"
    and "mq_holds (msg_mem an) (mq_out an) as xs" and "msg_mem an (msg_brk an) = None"
  defines "p \<equiv> msg_params msg" and "fs \<equiv> detector_samp_rate su (fac_baud_det i)"
  shows "\<exists>an' msg' i'.
       suscan_analyzer_parse_inspector_msg su env an ch msg = Some (an', msg', malloc_ok ch) \<and>
       kind msg' = SUSCAN_ANALYZER_INSPECTOR_MSGKIND_PARAMS \<and>
       inspector_mem an' = (inspector_mem an)(a \<mapsto> i') \<and>
       i' = i\<lparr>params := p,
              sym_period := (if baud p > 0 then 1 / SU_ABS2NORM_BAUD fs (baud p) else 0),
              lo := su_ncqo_set_freq su (lo i) (SU_ABS2NORM_FREQ su fs (fc_off p)),
              phase := exp (\<i> * complex_of_real (fc_phi p))\<rparr> \<and>
       (baud p > 0 \<longrightarrow> sym_period i' = real fs / baud p) \<and>
       cmod (phase i') = 1"
proof -
  let ?i' = "i\<lparr>params := p,
              sym_period := (if baud p > 0 then 1 / SU_ABS2NORM_BAUD fs (baud p) else 0),
              lo := su_ncqo_set_freq su (lo i) (SU_ABS2NORM_FREQ su fs (fc_off p)),
              phase := exp (\<i> * complex_of_real (fc_phi p))\<rparr>"
  let ?an1 = "an\<lparr>inspector_mem := (inspector_mem an)(a \<mapsto> ?i')\<rparr>"
  let ?msg' = "msg\<lparr>msg_inspector_id := inspector_id p\<rparr>"
  have q: "mq_holds (msg_mem ?an1) (mq_out ?an1) as xs" "msg_mem ?an1 (msg_brk ?an1) = None"
    using assms(4,5) by simp_all
  have third: "case Some a of None \<Rightarrow> ?msg' = msg
     | Some b \<Rightarrow> \<exists>j. inspector_mem ?an1 b = Some j \<and>
                      ?msg' = msg\<lparr>msg_inspector_id := inspector_id (params j)\<rparr>"
    by simp
  from parse_inspector_msg_reply_result [OF q third, of env ch]
  obtain mem' mq' where
    r: "parse_inspector_msg_reply env ?an1 ch msg (Some a) =
          Some (?an1\<lparr>msg_mem := mem', mq_out := mq',
                   msg_brk := (if malloc_ok ch then Suc (msg_brk ?an1) else msg_brk ?an1)\<rparr>,
                ?msg', malloc_ok ch)"
    by auto
  have upd: "(if baud p > 0
          then i\<lparr>params := p, sym_period := 1 / SU_ABS2NORM_BAUD fs (baud p)\<rparr>
          else i\<lparr>params := p, sym_period := 0\<rparr>)
         \<lparr>lo := su_ncqo_set_freq su (lo i) (SU_ABS2NORM_FREQ su fs (fc_off p)),
          phase := exp (\<i> * complex_of_real (fc_phi p))\<rparr> = ?i'"
    by simp
  have step: "suscan_analyzer_parse_inspector_msg su env an ch msg =
          parse_inspector_msg_reply env ?an1 ch msg (Some a)"
    unfolding upd [symmetric]
    using assms(1,2,3)
    by (simp add: suscan_analyzer_parse_inspector_msg_def Let_def p_def fs_def)
  have period: "sym_period ?i' = real fs / baud p" if "baud p > 0"
    using that by (simp add: SU_ABS2NORM_BAUD_def)
  have "phase ?i' = cis (fc_phi p)"
    by (simp add: cis_conv_exp)
  then have modulus: "cmod (phase ?i') = 1"
    by (simp only: norm_cis)
  let ?an2 = "?an1\<lparr>msg_mem := mem', mq_out := mq',
                   msg_brk := (if malloc_ok ch then Suc (msg_brk ?an1) else msg_brk ?an1)\<rparr>"
  have res: "suscan_analyzer_parse_inspector_msg su env an ch msg = Some (?an2, ?msg', malloc_ok ch)"
    unfolding step r by (rule refl)
  have k: "kind ?msg' = SUSCAN_ANALYZER_INSPECTOR_MSGKIND_PARAMS"
    using assms(3) by simp
  have m: "inspector_mem ?an2 = (inspector_mem an)(a \<mapsto> ?i')"
    by simp
  have "suscan_analyzer_parse_inspector_msg su env an ch msg = Some (?an2, ?msg', malloc_ok ch) \<and>
       kind ?msg' = SUSCAN_ANALYZER_INSPECTOR_MSGKIND_PARAMS \<and>
       inspector_mem ?an2 = (inspector_mem an)(a \<mapsto> ?i') \<and>
       ?i' = ?i' \<and>
       (baud p > 0 \<longrightarrow> sym_period ?i' = real fs / baud p) \<and>
       cmod (phase ?i') = 1"
    using res k m period modulus by (intro conjI impI refl)
  then show ?thesis
    by (intro exI [of _ ?an2] exI [of _ ?msg'] exI [of _ ?i'])
qed


theorem set_params_updates_inspector_witness:
  "suscan_analyzer_get_inspector analyzer_one
     (handle (request SUSCAN_ANALYZER_INSPECTOR_MSGKIND_PARAMS 45 0)) = Some (Some 0) \<and>
   inspector_mem analyzer_one 0 = Some insp_plain \<and>
   mq_holds (msg_mem analyzer_one) (mq_out analyzer_one) [] [] \<and>
   msg_mem analyzer_one (msg_brk analyzer_one) = None \<and>
   (\<exists>an' msg' i'.
      suscan_analyzer_parse_inspector_msg su_plain env_plain analyzer_one all_ok
        (request SUSCAN_ANALYZER_INSPECTOR_MSGKIND_PARAMS 45 0) = Some (an', msg', True) \<and>
      kind msg' = SUSCAN_ANALYZER_INSPECTOR_MSGKIND_PARAMS \<and>
      inspector_mem an' 0 = Some i' \<and>
      baud (params i') = 2 \<and> sym_period i' = 4 \<and> cmod (phase i') = 1)"
proof -
  let ?msg = "request SUSCAN_ANALYZER_INSPECTOR_MSGKIND_PARAMS 45 0"
  have h: "mq_holds (msg_mem analyzer_one) (mq_out analyzer_one) [] []"
    by (simp add: analyzer_one_def analyzer_plain_def mq_holds_init)
  have g: "suscan_analyzer_get_inspector analyzer_one (handle ?msg) = Some (Some 0)"
    by (simp add: suscan_analyzer_get_inspector_def analyzer_one_def analyzer_plain_def
        request_def insp_plain_def)
  have pre: "inspector_mem analyzer_one 0 = Some insp_plain"
    "kind ?msg = SUSCAN_ANALYZER_INSPECTOR_MSGKIND_PARAMS"
    "msg_mem analyzer_one (msg_brk analyzer_one) = None"
    by (simp_all add: analyzer_one_def analyzer_plain_def request_def)
  have b: "baud (msg_params ?msg) = 2" "detector_samp_rate su_plain (fac_baud_det insp_plain) = 8"
    by (simp_all add: request_def su_plain_def)
  from set_params_updates_inspector [OF g pre(1,2) h pre(3), of su_plain env_plain all_ok]
  obtain an' msg' i' where
    r: "suscan_analyzer_parse_inspector_msg su_plain env_plain analyzer_one all_ok ?msg
          = Some (an', msg', malloc_ok all_ok)"
    "kind msg' = SUSCAN_ANALYZER_INSPECTOR_MSGKIND_PARAMS"
    "inspector_mem an' = (inspector_mem analyzer_one)(0 \<mapsto> i')"
    "params i' = msg_params ?msg"
    "baud (msg_params ?msg) > 0 \<longrightarrow>
       sym_period i' = real (detector_samp_rate su_plain (fac_baud_det insp_plain))
                         / baud (msg_params ?msg)"
    "cmod (phase i') = 1"
    by auto
  from r(5) b have "sym_period i' = 4" by simp
  with r g pre h b show ?thesis
    by (intro conjI exI [of _ an'] exI [of _ msg'] exI [of _ i']) (simp_all add: all_ok_def)
qed

subsection \<open>Registration\<close>

text \<open>
  C10.  When the inspector is not in state Created, \<open>suscan_analyzer_register_inspector\<close>
  changes nothing and returns \<open>SU_FALSE\<close>, the integer 0, not the \<open>-1\<close> of its other
  failures (the table cannot grow, the task cannot be pushed).  0 is also what a
  successful registration into an empty table returns, so the caller, who tests for
  \<open>-1\<close>, takes the rejection for the handle 0.
\<close>

theorem register_rejects_with_zero:
  "(inspector_mem an b = Some i \<and> state i \<noteq> SUSCAN_ASYNC_STATE_CREATED \<longrightarrow>
      suscan_analyzer_register_inspector an ch b = Some (an, 0) \<and> SU_FALSE = 0) \<and>
   (inspector_mem an b = Some i \<and> state i = SUSCAN_ASYNC_STATE_CREATED \<and>
    \<not> (ptr_list_grows ch \<and> push_task_ok ch) \<longrightarrow>
      (\<exists>an'. suscan_analyzer_register_inspector an ch b = Some (an', -1))) \<and>
   (inspector_mem an b = Some i \<and> state i = SUSCAN_ASYNC_STATE_CREATED \<and>
    ptr_list_grows ch \<and> push_task_ok ch \<and> inspector_list an = [] \<longrightarrow>
      (\<exists>an'. suscan_analyzer_register_inspector an ch b = Some (an', 0) \<and>
             inspector_list an' = [Some b] \<and>
             inspector_mem an' b = Some (i\<lparr>state := SUSCAN_ASYNC_STATE_RUNNING\<rparr>)))"
  by (auto simp: suscan_analyzer_register_inspector_def PTR_LIST_APPEND_CHECK_def SU_FALSE_def
      suscan_analyzer_dispose_inspector_handle_def Let_def)

theorem register_rejects_with_zero_witness:
  "inspector_mem analyzer_one 0 = Some insp_plain \<and>
   state insp_plain \<noteq> SUSCAN_ASYNC_STATE_CREATED \<and>
   suscan_analyzer_register_inspector analyzer_one all_ok 0 = Some (analyzer_one, 0) \<and>
   inspector_mem (analyzer_plain\<lparr>inspector_mem :=
       [0 \<mapsto> insp_plain\<lparr>state := SUSCAN_ASYNC_STATE_CREATED\<rparr>]\<rparr>) 0
     = Some (insp_plain\<lparr>state := SUSCAN_ASYNC_STATE_CREATED\<rparr>) \<and>
   (\<exists>an'. suscan_analyzer_register_inspector
            (analyzer_plain\<lparr>inspector_mem :=
               [0 \<mapsto> insp_plain\<lparr>state := SUSCAN_ASYNC_STATE_CREATED\<rparr>]\<rparr>) all_ok 0
          = Some (an', 0) \<and> inspector_list an' = [Some 0])"
proof -
  let ?an = "analyzer_plain\<lparr>inspector_mem :=
       [0 \<mapsto> insp_plain\<lparr>state := SUSCAN_ASYNC_STATE_CREATED\<rparr>]\<rparr>"
  have a: "inspector_mem analyzer_one 0 = Some insp_plain"
    "state insp_plain \<noteq> SUSCAN_ASYNC_STATE_CREATED"
    by (simp_all add: analyzer_one_def analyzer_plain_def insp_plain_def)
  have b: "inspector_mem ?an 0 = Some (insp_plain\<lparr>state := SUSCAN_ASYNC_STATE_CREATED\<rparr>)"
    "state (insp_plain\<lparr>state := SUSCAN_ASYNC_STATE_CREATED\<rparr>) = SUSCAN_ASYNC_STATE_CREATED"
    "ptr_list_grows all_ok" "push_task_ok all_ok" "inspector_list ?an = []"
    by (simp_all add: analyzer_plain_def all_ok_def)
  from register_rejects_with_zero [of analyzer_one 0 insp_plain all_ok] a
  have 1: "suscan_analyzer_register_inspector analyzer_one all_ok 0 = Some (analyzer_one, 0)"
    by blast
  from register_rejects_with_zero
    [of ?an 0 "insp_plain\<lparr>state := SUSCAN_ASYNC_STATE_CREATED\<rparr>" all_ok] b
  have 2: "\<exists>an'. suscan_analyzer_register_inspector ?an all_ok 0 = Some (an', 0) \<and>
             inspector_list an' = [Some 0]"
    by blast
  from a b(1) 1 2 show ?thesis by blast
qed

text \<open>
  In the handler the only caller passes a fresh inspector, which is Created; were it
  not, the OPEN response would carry handle 0.
\<close>

lemma parse_open_sees_handle_zero:
  assumes "suscan_inspector_new su env an (calloc_ok ch) (channel msg) = (an1, Some new)"
    and "suscan_analyzer_register_inspector an1 ch new = Some (an2, SU_FALSE)"
    and "kind msg = SUSCAN_ANALYZER_INSPECTOR_MSGKIND_OPEN"
  shows "suscan_analyzer_parse_inspector_msg su env an ch msg =
           parse_inspector_msg_reply env an2 ch (msg\<lparr>handle := 0\<rparr>) None"
  using assms by (simp add: suscan_analyzer_parse_inspector_msg_def SU_FALSE_def)

subsection \<open>The sample feed inside the worker callback\<close>

lemma feed_bulk_loop_frame:
  assumes "feed_bulk_loop su x count sps i insp = Some (insp', r)"
  shows "state insp' = state insp \<and> params insp' = params insp \<and>
         task_state insp' = task_state insp"
  using assms
proof (induction su x count sps i insp rule: feed_bulk_loop.induct)
  case (1 su x count sps i insp)
  show ?case
  proof (cases "i < count \<and> \<not> sym_new_sample insp")
    case False
    with "1.prems" show ?thesis by (simp add: feed_bulk_loop_stop)
  next
    case guard: True
    show ?thesis
    proof (cases "i < 0 \<or> int (length x) \<le> i")
      case True
      with guard "1.prems"(1) show ?thesis
        by (subst (asm) feed_bulk_loop.simps) simp
    next
      case b: False
      obtain ok insp1 where body: "feed_bulk_body su sps insp (x ! nat i) = (ok, insp1)"
        by (cases "feed_bulk_body su sps insp (x ! nat i)")
      note fr = feed_bulk_body_frame [OF body]
      show ?thesis
      proof (cases ok)
        case False
        with guard b body "1.prems" have "insp' = insp1"
          by (simp add: feed_bulk_loop_step)
        with fr show ?thesis by simp
      next
        case True
        then have ok: "ok = True" by simp
        from guard b body ok "1.prems"(1)
        have next_call: "feed_bulk_loop su x count sps (i + 1) insp1 = Some (insp', r)"
          by (simp add: feed_bulk_loop_step)
        from "1.IH" [OF guard b body [symmetric] ok next_call] fr
        show ?thesis by simp
      qed
    qed
  qed
qed

lemma feed_bulk_frame:
  assumes "suscan_inspector_feed_bulk su insp x count = Some (insp', r)"
  shows "state insp' = state insp" and "params insp' = params insp"
    and "task_state insp' = task_state insp"
  using feed_bulk_loop_frame [of su x count _ 0 "insp\<lparr>sym_new_sample := False\<rparr>" insp' r] assms
  by (simp_all add: suscan_inspector_feed_bulk_def Let_def)

lemma feed_bulk_progress:
  assumes "0 < count" and "count \<le> int (length x)"
  shows "\<exists>insp' r. suscan_inspector_feed_bulk su insp x count = Some (insp', r) \<and>
           (r = -1 \<or> (1 \<le> r \<and> r \<le> count))"
proof -
  let ?sps = "complex_of_real (params_sym_phase (params insp) * sym_period insp)"
  let ?insp0 = "insp\<lparr>sym_new_sample := False\<rparr>"
  have call: "suscan_inspector_feed_bulk su insp x count = feed_bulk_loop su x count ?sps 0 ?insp0"
    by (simp add: suscan_inspector_feed_bulk_def)
  from feed_bulk_loop_returns [of 0 count x su ?sps ?insp0] assms
  obtain insp' r where loop: "feed_bulk_loop su x count ?sps 0 ?insp0 = Some (insp', r)"
    and range: "r = -1 \<or> (0 \<le> r \<and> r \<le> count)"
    by auto
  have "r \<noteq> 0"
  proof
    assume z: "r = 0"
    with feed_bulk_loop_consumed [OF loop] have "insp' = ?insp0"
      and "sym_new_sample insp' \<or> r = max 0 count"
      by simp_all
    with z assms(1) show False by simp
  qed
  with range call loop show ?thesis by auto
qed

lemma wk_cb_loop_returns:
  "\<exists>insp' b ok. wk_cb_loop su env cc insp samp batch = Some (insp', b, ok) \<and>
      state insp' = state insp"
proof (induction "length samp" arbitrary: insp samp batch rule: less_induct)
  case less
  show ?case
  proof (cases "samp = []")
    case True
    then show ?thesis by (subst wk_cb_loop.simps) auto
  next
    case False
    then have pos: "0 < int (length samp)" by simp
    from feed_bulk_progress [OF pos order_refl, of su insp]
    obtain insp1 fed where fb: "suscan_inspector_feed_bulk su insp samp (int (length samp)) = Some (insp1, fed)"
      and range: "fed = -1 \<or> (1 \<le> fed \<and> fed \<le> int (length samp))"
      by blast
    have st: "state insp1 = state insp" using fb by (rule feed_bulk_frame)
    show ?thesis
    proof (cases "fed \<ge> 0")
      case neg: False
      with False fb st show ?thesis by (subst wk_cb_loop.simps) auto
    next
      case nonneg: True
      obtain batch1 go_on where col: "wk_cb_collect cc insp1 batch = (batch1, go_on)"
        by (cases "wk_cb_collect cc insp1 batch")
      show ?thesis
      proof (cases go_on)
        case stop: False
        with False fb st nonneg col show ?thesis by (subst wk_cb_loop.simps) auto
      next
        case True
        let ?insp2 = "insp1\<lparr>task_state := suscan_consumer_task_state_advance env (task_state insp1) fed\<rparr>"
        from nonneg range False have "length (drop (nat fed) samp) < length samp"
          by auto
        from less [OF this, of ?insp2 batch1]
        obtain insp' b ok where
          "wk_cb_loop su env cc ?insp2 (drop (nat fed) samp) batch1 = Some (insp', b, ok)"
          "state insp' = state ?insp2"
          by blast
        with False fb st nonneg col True show ?thesis
          by (subst wk_cb_loop.simps) auto
      qed
    qed
  qed
qed

subsection \<open>Well-formed analyzers\<close>

lemma analyzer_wf_msg_fresh: "analyzer_wf an \<Longrightarrow> msg_mem an (msg_brk an) = None"
  unfolding analyzer_wf_def by (metis less_irrefl)

lemma analyzer_wf_insp_fresh: "analyzer_wf an \<Longrightarrow> inspector_mem an (insp_brk an) = None"
  unfolding analyzer_wf_def by (metis less_irrefl)

lemma analyzer_wf_insp_update:
  assumes "analyzer_wf an" and "inspector_mem an a \<noteq> None"
  shows "analyzer_wf (an\<lparr>inspector_mem := (inspector_mem an)(a \<mapsto> j)\<rparr>)"
  using assms unfolding analyzer_wf_def by simp

lemma analyzer_wf_written:
  assumes "analyzer_wf an" and "mq_holds mem' mq' as' xs'"
    and "dom mem' = insert (msg_brk an) (dom (msg_mem an))"
  shows "analyzer_wf (an\<lparr>msg_mem := mem', mq_out := mq', msg_brk := Suc (msg_brk an)\<rparr>)"
proof -
  have bound: "a < Suc (msg_brk an)" if "mem' a \<noteq> None" for a
  proof -
    from that have "a \<in> dom mem'" by (simp add: domIff)
    with assms(3) have "a = msg_brk an \<or> msg_mem an a \<noteq> None" by (auto simp: domIff)
    with assms(1) show ?thesis unfolding analyzer_wf_def by (metis less_Suc_eq)
  qed
  from assms(1) have rest: "(\<forall>a. inspector_mem an a \<noteq> None \<longrightarrow> a < insp_brk an) \<and>
     (\<forall>a. Some a \<in> set (inspector_list an) \<longrightarrow> inspector_mem an a \<noteq> None) \<and>
     (\<forall>a. a \<in> set (worker_tasks an) \<longrightarrow> inspector_mem an a \<noteq> None)"
    unfolding analyzer_wf_def by blast
  from assms(2) have "\<exists>as xs. mq_holds mem' mq' as xs" by blast
  with bound rest show ?thesis
    unfolding analyzer_wf_def by simp
qed

lemma mq_write_wf:
  assumes "analyzer_wf an"
  shows "\<exists>mem' mq' written.
           suscan_mq_write (msg_mem an) (mq_out an)
             (if ok then Some (msg_brk an) else None) ty payload = Some (mem', mq', written) \<and>
           analyzer_wf (an\<lparr>msg_mem := mem', mq_out := mq',
                           msg_brk := (if ok then Suc (msg_brk an) else msg_brk an)\<rparr>)"
proof (cases ok)
  case False
  have "an\<lparr>msg_mem := msg_mem an, mq_out := mq_out an, msg_brk := msg_brk an\<rparr> = an"
    by simp
  with False assms show ?thesis
    by (auto simp: suscan_mq_write_failed)
next
  case True
  from assms obtain as xs where h: "mq_holds (msg_mem an) (mq_out an) as xs"
    unfolding analyzer_wf_def by blast
  from analyzer_wf_msg_fresh [OF assms] have fresh: "msg_brk an \<notin> dom (msg_mem an)"
    by (simp add: domIff)
  from suscan_mq_write_holds [OF h fresh, of ty payload]
  obtain mem' mq' where w: "suscan_mq_write (msg_mem an) (mq_out an) (Some (msg_brk an)) ty payload
        = Some (mem', mq', True)"
    and h': "mq_holds mem' mq' (as @ [msg_brk an]) (xs @ [(ty, payload)])"
    and d: "dom mem' = insert (msg_brk an) (dom (msg_mem an))"
    by blast
  from analyzer_wf_written [OF assms h' d] w True show ?thesis by auto
qed

lemma wk_cb_done_result:
  assumes "analyzer_wf an" and "inspector_mem an a \<noteq> None"
  shows "\<exists>an' i'. wk_cb_done env an a insp restart = (an', restart) \<and> analyzer_wf an' \<and>
           inspector_list an' = inspector_list an \<and> worker_tasks an' = worker_tasks an \<and>
           inspector_mem an' = (inspector_mem an)(a \<mapsto> i') \<and>
           state i' = (if restart then state insp else SUSCAN_ASYNC_STATE_HALTED)"
proof -
  let ?i' = "if \<not> restart
             then insp\<lparr>state := SUSCAN_ASYNC_STATE_HALTED,
                       task_state := suscan_consumer_remove_task env (task_state insp)\<rparr>
             else insp"
  have "wk_cb_done env an a insp restart =
          (an\<lparr>inspector_mem := (inspector_mem an)(a \<mapsto> ?i')\<rparr>, restart)"
    by (simp add: wk_cb_done_def)
  moreover have "analyzer_wf (an\<lparr>inspector_mem := (inspector_mem an)(a \<mapsto> ?i')\<rparr>)"
    using assms by (rule analyzer_wf_insp_update)
  moreover have "state ?i' = (if restart then state insp else SUSCAN_ASYNC_STATE_HALTED)"
    by simp
  ultimately show ?thesis
    by (intro exI [of _ "an\<lparr>inspector_mem := (inspector_mem an)(a \<mapsto> ?i')\<rparr>"] exI [of _ ?i']) simp
qed

lemma wk_cb_result:
  assumes "analyzer_wf an" and "inspector_mem an a = Some i"
  shows "\<exists>an' restart i'.
           suscan_inspector_wk_cb su env an cc a = Some (an', restart) \<and> analyzer_wf an' \<and>
           inspector_list an' = inspector_list an \<and> worker_tasks an' = worker_tasks an \<and>
           inspector_mem an' = (inspector_mem an)(a \<mapsto> i') \<and>
           state i' = (if restart then state i else SUSCAN_ASYNC_STATE_HALTED)"
proof -
  define insp1 where "insp1 = (if task_state_consumer_is_null env (task_state i)
                       then i\<lparr>task_state := suscan_consumer_task_state_init env (task_state i)\<rparr>
                       else i)"
  have s1: "state insp1 = state i" by (simp add: insp1_def)
  from assms(2) have alloc: "inspector_mem an a \<noteq> None" by simp
  show ?thesis
  proof (cases "state insp1 = SUSCAN_ASYNC_STATE_HALTING")
    case True
    then have "suscan_inspector_wk_cb su env an cc a = Some (wk_cb_done env an a insp1 False)"
      using assms(2) by (simp add: suscan_inspector_wk_cb_def insp1_def [symmetric] Let_def)
    with wk_cb_done_result [OF assms(1) alloc, of env insp1 False] show ?thesis
      by (metis (full_types))
  next
    case running: False
    obtain ok ts samp where asrt:
      "suscan_consumer_task_state_assert_samples env (task_state insp1) = (ok, ts, samp)"
      by (cases "suscan_consumer_task_state_assert_samples env (task_state insp1)")
    show ?thesis
    proof (cases ok)
      case False
      then have "suscan_inspector_wk_cb su env an cc a =
                   Some (wk_cb_done env an a (insp1\<lparr>task_state := ts\<rparr>) False)"
        using assms(2) running asrt
        by (simp add: suscan_inspector_wk_cb_def insp1_def [symmetric] Let_def)
      with wk_cb_done_result [OF assms(1) alloc, of env "insp1\<lparr>task_state := ts\<rparr>" False]
      show ?thesis by (metis (full_types))
    next
      case True
      from wk_cb_loop_returns [of su env cc "insp1\<lparr>task_state := ts\<rparr>" samp None]
      obtain insp2 b fin where loop:
        "wk_cb_loop su env cc (insp1\<lparr>task_state := ts\<rparr>) samp None = Some (insp2, b, fin)"
        and s2: "state insp2 = state i"
        using s1 by auto
      have unfold: "suscan_inspector_wk_cb su env an cc a =
          (case Some (insp2, b, fin) of
                    None \<Rightarrow> None
                  | Some (insp2, batch_msg, False) \<Rightarrow> Some (wk_cb_done env an a insp2 False)
                  | Some (insp2, None, True) \<Rightarrow> Some (wk_cb_done env an a insp2 True)
                  | Some (insp2, Some b, True) \<Rightarrow>
                      (case suscan_mq_write (msg_mem an) (mq_out an)
                              (if cb_malloc_ok cc then Some (msg_brk an) else None)
                              (SUSCAN_ANALYZER_MESSAGE_TYPE_SAMPLES env) (Sample_batch_msg b) of
                         None \<Rightarrow> None
                       | Some (mem1, mq1, written) \<Rightarrow>
                           Some (wk_cb_done env
                                   (an\<lparr>msg_mem := mem1, mq_out := mq1,
                                       msg_brk := (if cb_malloc_ok cc then Suc (msg_brk an)
                                                   else msg_brk an)\<rparr>)
                                   a insp2 written)))"
        using assms(2) running asrt True loop
        by (simp add: suscan_inspector_wk_cb_def insp1_def [symmetric] Let_def)
      show ?thesis
      proof (cases fin)
        case False
        with unfold have "suscan_inspector_wk_cb su env an cc a =
                   Some (wk_cb_done env an a insp2 False)"
          by (simp split: option.splits)
        with wk_cb_done_result [OF assms(1) alloc, of env insp2 False] s2
        show ?thesis by (metis (full_types))
      next
        case fin: True
        show ?thesis
        proof (cases b)
          case None
          with unfold fin have "suscan_inspector_wk_cb su env an cc a =
                   Some (wk_cb_done env an a insp2 True)"
            by simp
          with wk_cb_done_result [OF assms(1) alloc, of env insp2 True] s2
          show ?thesis by (metis (full_types))
        next
          case (Some bm)
          from mq_write_wf [OF assms(1), of "cb_malloc_ok cc"
              "SUSCAN_ANALYZER_MESSAGE_TYPE_SAMPLES env" "Sample_batch_msg bm"]
          obtain mem' mq' written where
            w: "suscan_mq_write (msg_mem an) (mq_out an)
                  (if cb_malloc_ok cc then Some (msg_brk an) else None)
                  (SUSCAN_ANALYZER_MESSAGE_TYPE_SAMPLES env) (Sample_batch_msg bm)
                = Some (mem', mq', written)"
            and wf': "analyzer_wf (an\<lparr>msg_mem := mem', mq_out := mq',
                           msg_brk := (if cb_malloc_ok cc then Suc (msg_brk an) else msg_brk an)\<rparr>)"
            by blast
          let ?an1 = "an\<lparr>msg_mem := mem', mq_out := mq',
                           msg_brk := (if cb_malloc_ok cc then Suc (msg_brk an) else msg_brk an)\<rparr>"
          have alloc1: "inspector_mem ?an1 a \<noteq> None" using alloc by simp
          from unfold fin Some w have "suscan_inspector_wk_cb su env an cc a =
                   Some (wk_cb_done env ?an1 a insp2 written)"
            by simp
          with wk_cb_done_result [OF wf' alloc1, of env insp2 written] s2
          show ?thesis by (auto split: if_splits)
        qed
      qed
    qed
  qed
qed

lemma get_inspector_wf:
  assumes "analyzer_wf an"
  shows "suscan_analyzer_get_inspector an h = Some None \<or>
         (\<exists>a i. suscan_analyzer_get_inspector an h = Some (Some a) \<and>
                inspector_mem an a = Some i \<and> state i = SUSCAN_ASYNC_STATE_RUNNING)"
proof (cases "h < 0 \<or> h \<ge> int (length (inspector_list an))")
  case True
  then show ?thesis by (simp add: suscan_analyzer_get_inspector_def)
next
  case False
  show ?thesis
  proof (cases "inspector_list an ! nat h")
    case None
    with False show ?thesis by (simp add: suscan_analyzer_get_inspector_def)
  next
    case (Some a)
    with False have "Some a \<in> set (inspector_list an)"
      by (metis nth_mem not_le not_less nat_less_iff)
    with assms obtain i where "inspector_mem an a = Some i"
      unfolding analyzer_wf_def by blast
    with False Some show ?thesis
      by (simp add: suscan_analyzer_get_inspector_def)
  qed
qed

lemma reply_wf:
  assumes "analyzer_wf an" and "insp = None \<or> (\<exists>a. insp = Some a \<and> inspector_mem an a \<noteq> None)"
  shows "\<exists>an' msg1 ok. parse_inspector_msg_reply env an ch msg insp = Some (an', msg1, ok) \<and>
           analyzer_wf an' \<and> inspector_mem an' = inspector_mem an"
proof -
  from assms(2) obtain msg1 where pre: "(case insp of
              None \<Rightarrow> Some msg
            | Some a \<Rightarrow>
                (case inspector_mem an a of
                   None \<Rightarrow> None
                 | Some i \<Rightarrow> Some (msg\<lparr>msg_inspector_id := inspector_id (params i)\<rparr>))) = Some msg1"
    by (auto split: option.splits)
  from mq_write_wf [OF assms(1), of "malloc_ok ch" "SUSCAN_ANALYZER_MESSAGE_TYPE_INSPECTOR env"
      "Inspector_msg msg1"]
  obtain mem' mq' written where
    w: "suscan_mq_write (msg_mem an) (mq_out an) (if malloc_ok ch then Some (msg_brk an) else None)
          (SUSCAN_ANALYZER_MESSAGE_TYPE_INSPECTOR env) (Inspector_msg msg1) = Some (mem', mq', written)"
    and wf': "analyzer_wf (an\<lparr>msg_mem := mem', mq_out := mq',
                           msg_brk := (if malloc_ok ch then Suc (msg_brk an) else msg_brk an)\<rparr>)"
    by blast
  have "parse_inspector_msg_reply env an ch msg insp =
          Some (an\<lparr>msg_mem := mem', mq_out := mq',
                   msg_brk := (if malloc_ok ch then Suc (msg_brk an) else msg_brk an)\<rparr>,
                msg1, written)"
    unfolding parse_inspector_msg_reply_def pre using w by simp
  with wf' show ?thesis by simp
qed

lemma analyzer_wf_calloc:
  assumes "analyzer_wf an"
  shows "analyzer_wf (an\<lparr>insp_brk := Suc (insp_brk an)\<rparr>)"
  using assms unfolding analyzer_wf_def by (auto simp: less_Suc_eq)

lemma analyzer_wf_new:
  assumes "analyzer_wf an"
  shows "analyzer_wf (an\<lparr>insp_brk := Suc (insp_brk an),
                         inspector_mem := (inspector_mem an)(insp_brk an \<mapsto> j)\<rparr>)"
  using assms unfolding analyzer_wf_def by (auto simp: less_Suc_eq)

lemma inspector_new_result:
  assumes "analyzer_wf an" and "suscan_inspector_new su env an c chan = (an1, r)"
  shows "(r = None \<and> analyzer_wf an1 \<and> inspector_mem an1 = inspector_mem an \<and>
          inspector_list an1 = inspector_list an \<and> worker_tasks an1 = worker_tasks an) \<or>
         (\<exists>j. r = Some (insp_brk an) \<and> state j = SUSCAN_ASYNC_STATE_CREATED \<and>
              an1 = an\<lparr>insp_brk := Suc (insp_brk an),
                        inspector_mem := (inspector_mem an)(insp_brk an \<mapsto> j)\<rparr>)"
proof (cases r)
  case None
  with assms(2) have "an1 = an \<or> an1 = an\<lparr>insp_brk := Suc (insp_brk an)\<rparr>"
    by (auto simp: suscan_inspector_new_def Let_def split: if_splits option.splits)
  with None assms(1) analyzer_wf_calloc [OF assms(1)] show ?thesis by auto
next
  case (Some new)
  with assms(2) have "r = Some (insp_brk an) \<and>
      state (the (inspector_mem an1 (insp_brk an))) = SUSCAN_ASYNC_STATE_CREATED \<and>
      an1 = an\<lparr>insp_brk := Suc (insp_brk an),
                inspector_mem := (inspector_mem an)(insp_brk an \<mapsto>
                  the (inspector_mem an1 (insp_brk an)))\<rparr>"
    by (auto simp: suscan_inspector_new_def Let_def split: if_splits option.splits)
  then show ?thesis by blast
qed

lemma register_result:
  assumes "analyzer_wf an" and "inspector_mem an new = Some j"
    and "state j = SUSCAN_ASYNC_STATE_CREATED"
    and "Some new \<notin> set (inspector_list an)" and "new \<notin> set (worker_tasks an)"
  shows "\<exists>an2 hnd. suscan_analyzer_register_inspector an ch new = Some (an2, hnd) \<and>
           (if hnd = -1
            then analyzer_wf (suscan_inspector_destroy an2 new) \<and>
                 inspector_mem (suscan_inspector_destroy an2 new) = (inspector_mem an)(new := None)
            else analyzer_wf an2 \<and>
                 inspector_mem an2 =
                   (inspector_mem an)(new \<mapsto> j\<lparr>state := SUSCAN_ASYNC_STATE_RUNNING\<rparr>))"
proof (cases "ptr_list_grows ch")
  case False
  then have r: "suscan_analyzer_register_inspector an ch new = Some (an, -1)"
    using assms(2,3)
    by (simp add: suscan_analyzer_register_inspector_def PTR_LIST_APPEND_CHECK_def)
  have "analyzer_wf (suscan_inspector_destroy an new)"
    using assms(1,4,5) unfolding analyzer_wf_def suscan_inspector_destroy_def
    by (auto split: if_splits)
  with r show ?thesis by (simp add: suscan_inspector_destroy_def)
next
  case grows: True
  let ?mem = "(inspector_mem an)(new \<mapsto> j\<lparr>state := SUSCAN_ASYNC_STATE_RUNNING\<rparr>)"
  show ?thesis
  proof (cases "push_task_ok ch")
    case True
    let ?an2 = "an\<lparr>inspector_list := inspector_list an @ [Some new], inspector_mem := ?mem,
                   worker_tasks := worker_tasks an @ [new]\<rparr>"
    have r: "suscan_analyzer_register_inspector an ch new = Some (?an2, int (length (inspector_list an)))"
      using assms(2,3) grows True
      by (simp add: suscan_analyzer_register_inspector_def PTR_LIST_APPEND_CHECK_def Let_def)
    have "analyzer_wf ?an2"
      using assms(1,2) unfolding analyzer_wf_def by auto
    with r show ?thesis by simp
  next
    case False
    let ?an2 = "an\<lparr>inspector_list := (inspector_list an @ [Some new])
                                       [length (inspector_list an) := None],
                   inspector_mem := ?mem\<rparr>"
    have r: "suscan_analyzer_register_inspector an ch new = Some (?an2, -1)"
      using assms(2,3) grows False
      by (simp add: suscan_analyzer_register_inspector_def PTR_LIST_APPEND_CHECK_def Let_def
          suscan_analyzer_dispose_inspector_handle_def nth_append)
    have lst: "(inspector_list an @ [Some new])[length (inspector_list an) := None]
                 = inspector_list an @ [None]"
      by simp
    have "analyzer_wf (suscan_inspector_destroy ?an2 new)"
      using assms(1,4,5) unfolding analyzer_wf_def suscan_inspector_destroy_def lst
      by (auto split: if_splits)
    with r show ?thesis by (simp add: suscan_inspector_destroy_def)
  qed
qed

subsection \<open>Lifecycle states\<close>

lemma handler_moves_refl: "handler_moves k mem mem"
  by (auto simp: handler_moves_def)

lemma handler_moves_same_state:
  "mem a = Some i \<Longrightarrow> state j = state i \<Longrightarrow> handler_moves k mem (mem(a \<mapsto> j))"
  unfolding handler_moves_def
proof (intro conjI allI impI)
  fix aa ia assume h: "mem a = Some i" "state j = state i" "mem aa = Some ia"
  show "\<exists>i'. (mem(a \<mapsto> j)) aa = Some i' \<and>
            (state i' = state ia \<or>
             state ia = SUSCAN_ASYNC_STATE_RUNNING \<and>
             state i' = SUSCAN_ASYNC_STATE_HALTING \<and>
             k = SUSCAN_ANALYZER_INSPECTOR_MSGKIND_CLOSE)"
    using h by (cases "aa = a") auto
next
  fix aa i' assume h: "mem a = Some i" "mem aa = None \<and> (mem(a \<mapsto> j)) aa = Some i'"
  then have False by (cases "aa = a") auto
  then show "state i' = SUSCAN_ASYNC_STATE_RUNNING" "k = SUSCAN_ANALYZER_INSPECTOR_MSGKIND_OPEN"
    by blast+
qed

lemma handler_moves_close:
  "mem a = Some i \<Longrightarrow> state i = SUSCAN_ASYNC_STATE_RUNNING \<Longrightarrow>
   handler_moves SUSCAN_ANALYZER_INSPECTOR_MSGKIND_CLOSE mem
     (mem(a \<mapsto> i\<lparr>state := SUSCAN_ASYNC_STATE_HALTING\<rparr>))"
  unfolding handler_moves_def
proof (intro conjI allI impI)
  fix aa ia assume h: "mem a = Some i" "state i = SUSCAN_ASYNC_STATE_RUNNING" "mem aa = Some ia"
  show "\<exists>i'. (mem(a \<mapsto> i\<lparr>state := SUSCAN_ASYNC_STATE_HALTING\<rparr>)) aa = Some i' \<and>
            (state i' = state ia \<or>
             state ia = SUSCAN_ASYNC_STATE_RUNNING \<and>
             state i' = SUSCAN_ASYNC_STATE_HALTING \<and>
             SUSCAN_ANALYZER_INSPECTOR_MSGKIND_CLOSE = SUSCAN_ANALYZER_INSPECTOR_MSGKIND_CLOSE)"
    using h by (cases "aa = a") auto
next
  fix aa i' assume h: "mem a = Some i"
    "mem aa = None \<and> (mem(a \<mapsto> i\<lparr>state := SUSCAN_ASYNC_STATE_HALTING\<rparr>)) aa = Some i'"
  then have False by (cases "aa = a") auto
  then show "state i' = SUSCAN_ASYNC_STATE_RUNNING"
    "SUSCAN_ANALYZER_INSPECTOR_MSGKIND_CLOSE = SUSCAN_ANALYZER_INSPECTOR_MSGKIND_OPEN"
    by blast+
qed

lemma handler_moves_open:
  "mem new = None \<Longrightarrow> state j = SUSCAN_ASYNC_STATE_RUNNING \<Longrightarrow>
   handler_moves SUSCAN_ANALYZER_INSPECTOR_MSGKIND_OPEN mem (mem(new \<mapsto> j))"
  unfolding handler_moves_def
proof (intro conjI allI impI)
  fix aa ia assume h: "mem new = None" "mem aa = Some ia"
  show "\<exists>i'. (mem(new \<mapsto> j)) aa = Some i' \<and>
            (state i' = state ia \<or>
             state ia = SUSCAN_ASYNC_STATE_RUNNING \<and>
             state i' = SUSCAN_ASYNC_STATE_HALTING \<and>
             SUSCAN_ANALYZER_INSPECTOR_MSGKIND_OPEN = SUSCAN_ANALYZER_INSPECTOR_MSGKIND_CLOSE)"
    using h by (cases "aa = new") auto
next
  fix aa i' assume h: "state j = SUSCAN_ASYNC_STATE_RUNNING"
    "mem aa = None \<and> (mem(new \<mapsto> j)) aa = Some i'"
  then show "state i' = SUSCAN_ASYNC_STATE_RUNNING" by (cases "aa = new") auto
  show "SUSCAN_ANALYZER_INSPECTOR_MSGKIND_OPEN = SUSCAN_ANALYZER_INSPECTOR_MSGKIND_OPEN"
    by (rule refl)
qed

lemma parse_lookup_step:
  assumes "analyzer_wf an"
    and "kind msg \<in> {SUSCAN_ANALYZER_INSPECTOR_MSGKIND_GET_INFO,
                      SUSCAN_ANALYZER_INSPECTOR_MSGKIND_GET_PARAMS,
                      SUSCAN_ANALYZER_INSPECTOR_MSGKIND_PARAMS,
                      SUSCAN_ANALYZER_INSPECTOR_MSGKIND_CLOSE}"
  shows "\<exists>an' msg' ok. suscan_analyzer_parse_inspector_msg su env an ch msg = Some (an', msg', ok) \<and>
           analyzer_wf an' \<and> handler_moves (kind msg) (inspector_mem an) (inspector_mem an')"
proof -
  from get_inspector_wf [OF assms(1), of "handle msg"]
  consider "suscan_analyzer_get_inspector an (handle msg) = Some None"
    | a i where "suscan_analyzer_get_inspector an (handle msg) = Some (Some a)"
        "inspector_mem an a = Some i" "state i = SUSCAN_ASYNC_STATE_RUNNING"
    by blast
  then show ?thesis
  proof cases
    case 1
    let ?msg' = "msg\<lparr>kind := SUSCAN_ANALYZER_INSPECTOR_MSGKIND_WRONG_HANDLE\<rparr>"
    have "suscan_analyzer_parse_inspector_msg su env an ch msg =
            parse_inspector_msg_reply env an ch ?msg' None"
      using assms(2) 1 by (auto simp: suscan_analyzer_parse_inspector_msg_def)
    with reply_wf [OF assms(1), of None env ch ?msg'] show ?thesis
      by (auto simp: handler_moves_refl)
  next
    case 2
    have alloc: "inspector_mem an a \<noteq> None" using 2(2) by simp
    consider (info) "kind msg = SUSCAN_ANALYZER_INSPECTOR_MSGKIND_GET_INFO"
      | (get) "kind msg = SUSCAN_ANALYZER_INSPECTOR_MSGKIND_GET_PARAMS"
      | (set) "kind msg = SUSCAN_ANALYZER_INSPECTOR_MSGKIND_PARAMS"
      | (close) "kind msg = SUSCAN_ANALYZER_INSPECTOR_MSGKIND_CLOSE"
      using assms(2) by blast
    then show ?thesis
    proof cases
      case info
      let ?msg' = "msg\<lparr>kind := SUSCAN_ANALYZER_INSPECTOR_MSGKIND_INFO,
                           msg_baud := \<lparr>fac = detector_baud su (fac_baud_det i),
                                        nln = detector_baud su (nln_baud_det i)\<rparr>\<rparr>"
      have "suscan_analyzer_parse_inspector_msg su env an ch msg =
              parse_inspector_msg_reply env an ch ?msg' (Some a)"
        using info 2 by (simp add: suscan_analyzer_parse_inspector_msg_def)
      with reply_wf [OF assms(1), of "Some a" env ch ?msg'] alloc show ?thesis
        by (auto simp: handler_moves_refl)
    next
      case get
      let ?msg' = "msg\<lparr>kind := SUSCAN_ANALYZER_INSPECTOR_MSGKIND_PARAMS, msg_params := params i\<rparr>"
      have "suscan_analyzer_parse_inspector_msg su env an ch msg =
              parse_inspector_msg_reply env an ch ?msg' (Some a)"
        using get 2 by (simp add: suscan_analyzer_parse_inspector_msg_def)
      with reply_wf [OF assms(1), of "Some a" env ch ?msg'] alloc show ?thesis
        by (auto simp: handler_moves_refl)
    next
      case set
      obtain j where j: "state j = state i"
        and step: "suscan_analyzer_parse_inspector_msg su env an ch msg =
              parse_inspector_msg_reply env
                (an\<lparr>inspector_mem := (inspector_mem an)(a \<mapsto> j)\<rparr>) ch msg (Some a)"
      proof -
        let ?j = "(if baud (msg_params msg) > 0
                   then i\<lparr>params := msg_params msg,
                          sym_period := 1 / SU_ABS2NORM_BAUD
                            (detector_samp_rate su (fac_baud_det i)) (baud (msg_params msg))\<rparr>
                   else i\<lparr>params := msg_params msg, sym_period := 0\<rparr>)
                  \<lparr>lo := su_ncqo_set_freq su (lo i)
                     (SU_ABS2NORM_FREQ su (detector_samp_rate su (fac_baud_det i))
                        (fc_off (msg_params msg))),
                   phase := exp (\<i> * complex_of_real (fc_phi (msg_params msg)))\<rparr>"
        have "state ?j = state i" by simp
        moreover have "suscan_analyzer_parse_inspector_msg su env an ch msg =
              parse_inspector_msg_reply env
                (an\<lparr>inspector_mem := (inspector_mem an)(a \<mapsto> ?j)\<rparr>) ch msg (Some a)"
          using set 2 by (simp add: suscan_analyzer_parse_inspector_msg_def Let_def)
        ultimately show ?thesis using that by blast
      qed
      let ?an1 = "an\<lparr>inspector_mem := (inspector_mem an)(a \<mapsto> j)\<rparr>"
      have wf1: "analyzer_wf ?an1" using assms(1) alloc by (rule analyzer_wf_insp_update)
      have alloc1: "Some a = None \<or> (\<exists>b. Some a = Some b \<and> inspector_mem ?an1 b \<noteq> None)"
        by simp
      from reply_wf [OF wf1 alloc1, of env ch msg]
      obtain an' msg1 ok where
        "parse_inspector_msg_reply env ?an1 ch msg (Some a) = Some (an', msg1, ok)"
        "analyzer_wf an'" "inspector_mem an' = (inspector_mem an)(a \<mapsto> j)"
        by auto
      with step handler_moves_same_state [of "inspector_mem an" a i j "kind msg", OF 2(2) j]
      show ?thesis
        by auto
    next
      case close
      let ?an1 = "an\<lparr>inspector_mem := (inspector_mem an)(a \<mapsto>
                      i\<lparr>state := SUSCAN_ASYNC_STATE_HALTING\<rparr>)\<rparr>"
      let ?msg' = "msg\<lparr>msg_inspector_id := inspector_id (params i)\<rparr>"
      have step: "suscan_analyzer_parse_inspector_msg su env an ch msg =
              parse_inspector_msg_reply env ?an1 ch ?msg' None"
        using close 2 by (simp add: suscan_analyzer_parse_inspector_msg_def Let_def)
      have wf1: "analyzer_wf ?an1" using assms(1) alloc by (rule analyzer_wf_insp_update)
      from reply_wf [OF wf1, of None env ch ?msg']
      obtain an' msg1 ok where
        "parse_inspector_msg_reply env ?an1 ch ?msg' None = Some (an', msg1, ok)"
        "analyzer_wf an'"
        "inspector_mem an' = (inspector_mem an)(a \<mapsto> i\<lparr>state := SUSCAN_ASYNC_STATE_HALTING\<rparr>)"
        by auto
      with step handler_moves_close [of "inspector_mem an" a i, OF 2(2,3)] close show ?thesis
        by auto
    qed
  qed
qed

lemma analyzer_wf_list_fresh:
  "analyzer_wf an \<Longrightarrow> Some (insp_brk an) \<notin> set (inspector_list an)"
  unfolding analyzer_wf_def by (metis less_irrefl)

lemma analyzer_wf_tasks_fresh:
  "analyzer_wf an \<Longrightarrow> insp_brk an \<notin> set (worker_tasks an)"
  unfolding analyzer_wf_def by (metis less_irrefl)

lemma parse_open_step:
  assumes wf: "analyzer_wf an"
    and k: "kind msg = SUSCAN_ANALYZER_INSPECTOR_MSGKIND_OPEN"
  shows "\<exists>an' msg' ok. suscan_analyzer_parse_inspector_msg su env an ch msg = Some (an', msg', ok) \<and>
           analyzer_wf an' \<and> handler_moves (kind msg) (inspector_mem an) (inspector_mem an')"
proof -
  obtain an1 r where new: "suscan_inspector_new su env an (calloc_ok ch) (channel msg) = (an1, r)"
    by (cases "suscan_inspector_new su env an (calloc_ok ch) (channel msg)") blast
  from inspector_new_result [OF wf new]
  consider (fail) "r = None" "analyzer_wf an1" "inspector_mem an1 = inspector_mem an"
    | (made) j where "r = Some (insp_brk an)" "state j = SUSCAN_ASYNC_STATE_CREATED"
        "an1 = an\<lparr>insp_brk := Suc (insp_brk an),
                  inspector_mem := (inspector_mem an)(insp_brk an \<mapsto> j)\<rparr>"
    by blast
  then show ?thesis
  proof cases
    case fail
    have "suscan_analyzer_parse_inspector_msg su env an ch msg = Some (an1, msg, False)"
      using k new fail(1) by (simp add: suscan_analyzer_parse_inspector_msg_def)
    with fail(2,3) show ?thesis
      by (auto simp: handler_moves_refl)
  next
    case made
    let ?new = "insp_brk an"
    have fresh: "inspector_mem an ?new = None"
      using wf by (rule analyzer_wf_insp_fresh)
    have wf1: "analyzer_wf an1"
      unfolding made(3) using wf by (rule analyzer_wf_new)
    have at: "inspector_mem an1 ?new = Some j"
      by (simp add: made(3))
    have nl: "Some ?new \<notin> set (inspector_list an1)"
      using analyzer_wf_list_fresh [OF wf] by (simp add: made(3))
    have nt: "?new \<notin> set (worker_tasks an1)"
      using analyzer_wf_tasks_fresh [OF wf] by (simp add: made(3))
    from register_result [OF wf1 at made(2) nl nt, of ch]
    obtain an2 hnd where reg: "suscan_analyzer_register_inspector an1 ch ?new = Some (an2, hnd)"
      and res: "if hnd = -1
            then analyzer_wf (suscan_inspector_destroy an2 ?new) \<and>
                 inspector_mem (suscan_inspector_destroy an2 ?new) = (inspector_mem an1)(?new := None)
            else analyzer_wf an2 \<and>
                 inspector_mem an2 =
                   (inspector_mem an1)(?new \<mapsto> j\<lparr>state := SUSCAN_ASYNC_STATE_RUNNING\<rparr>)"
      by blast
    show ?thesis
    proof (cases "hnd = -1")
      case True
      have step: "suscan_analyzer_parse_inspector_msg su env an ch msg =
              Some (suscan_inspector_destroy an2 ?new, msg, False)"
        using k new made(1) reg True by (simp add: suscan_analyzer_parse_inspector_msg_def)
      from res True have wfd: "analyzer_wf (suscan_inspector_destroy an2 ?new)"
        and memd: "inspector_mem (suscan_inspector_destroy an2 ?new) =
                     (inspector_mem an1)(?new := None)"
        by simp_all
      have "(inspector_mem an1)(?new := None) = inspector_mem an"
        using fresh by (simp add: made(3) fun_eq_iff)
      with memd have "inspector_mem (suscan_inspector_destroy an2 ?new) = inspector_mem an"
        by simp
      with step wfd show ?thesis
        by (auto simp: handler_moves_refl)
    next
      case False
      have step: "suscan_analyzer_parse_inspector_msg su env an ch msg =
              parse_inspector_msg_reply env an2 ch (msg\<lparr>handle := hnd\<rparr>) None"
        using k new made(1) reg False by (simp add: suscan_analyzer_parse_inspector_msg_def)
      from res False have wf2: "analyzer_wf an2"
        and mem2: "inspector_mem an2 =
                     (inspector_mem an1)(?new \<mapsto> j\<lparr>state := SUSCAN_ASYNC_STATE_RUNNING\<rparr>)"
        by simp_all
      have mem2': "inspector_mem an2 =
                     (inspector_mem an)(?new \<mapsto> j\<lparr>state := SUSCAN_ASYNC_STATE_RUNNING\<rparr>)"
        unfolding mem2 by (simp add: made(3))
      from reply_wf [OF wf2, of None env ch "msg\<lparr>handle := hnd\<rparr>"]
      obtain an' msg1 ok where
        rep: "parse_inspector_msg_reply env an2 ch (msg\<lparr>handle := hnd\<rparr>) None = Some (an', msg1, ok)"
        and wf': "analyzer_wf an'" and mem': "inspector_mem an' = inspector_mem an2"
        by auto
      have "handler_moves SUSCAN_ANALYZER_INSPECTOR_MSGKIND_OPEN (inspector_mem an)
              ((inspector_mem an)(?new \<mapsto> j\<lparr>state := SUSCAN_ASYNC_STATE_RUNNING\<rparr>))"
        using fresh by (rule handler_moves_open) simp
      then have "handler_moves (kind msg) (inspector_mem an) (inspector_mem an')"
        unfolding mem' mem2' k .
      with step rep wf' show ?thesis
        by simp
    qed
  qed
qed

lemma parse_other_step:
  assumes wf: "analyzer_wf an"
    and k: "kind msg \<notin> {SUSCAN_ANALYZER_INSPECTOR_MSGKIND_OPEN,
                      SUSCAN_ANALYZER_INSPECTOR_MSGKIND_GET_INFO,
                      SUSCAN_ANALYZER_INSPECTOR_MSGKIND_GET_PARAMS,
                      SUSCAN_ANALYZER_INSPECTOR_MSGKIND_PARAMS,
                      SUSCAN_ANALYZER_INSPECTOR_MSGKIND_CLOSE}"
  shows "\<exists>an' msg' ok. suscan_analyzer_parse_inspector_msg su env an ch msg = Some (an', msg', ok) \<and>
           analyzer_wf an' \<and> handler_moves (kind msg) (inspector_mem an) (inspector_mem an')"
proof -
  let ?msg' = "msg\<lparr>status := kind msg, kind := SUSCAN_ANALYZER_INSPECTOR_MSGKIND_WRONG_KIND\<rparr>"
  have step: "suscan_analyzer_parse_inspector_msg su env an ch msg =
          parse_inspector_msg_reply env an ch ?msg' None"
    using k by (cases "kind msg") (simp_all add: suscan_analyzer_parse_inspector_msg_def)
  from reply_wf [OF wf, of None env ch ?msg']
  obtain an' msg1 ok where
    "parse_inspector_msg_reply env an ch ?msg' None = Some (an', msg1, ok)"
    "analyzer_wf an'" "inspector_mem an' = inspector_mem an"
    by auto
  with step show ?thesis
    by (simp add: handler_moves_refl)
qed

lemma parse_step:
  assumes wf: "analyzer_wf an"
  shows "\<exists>an' msg' ok. suscan_analyzer_parse_inspector_msg su env an ch msg = Some (an', msg', ok) \<and>
           analyzer_wf an' \<and> handler_moves (kind msg) (inspector_mem an) (inspector_mem an')"
proof -
  consider (opn) "kind msg = SUSCAN_ANALYZER_INSPECTOR_MSGKIND_OPEN"
    | (lookup) "kind msg \<in> {SUSCAN_ANALYZER_INSPECTOR_MSGKIND_GET_INFO,
                      SUSCAN_ANALYZER_INSPECTOR_MSGKIND_GET_PARAMS,
                      SUSCAN_ANALYZER_INSPECTOR_MSGKIND_PARAMS,
                      SUSCAN_ANALYZER_INSPECTOR_MSGKIND_CLOSE}"
    | (other) "kind msg \<notin> {SUSCAN_ANALYZER_INSPECTOR_MSGKIND_OPEN,
                      SUSCAN_ANALYZER_INSPECTOR_MSGKIND_GET_INFO,
                      SUSCAN_ANALYZER_INSPECTOR_MSGKIND_GET_PARAMS,
                      SUSCAN_ANALYZER_INSPECTOR_MSGKIND_PARAMS,
                      SUSCAN_ANALYZER_INSPECTOR_MSGKIND_CLOSE}"
    by blast
  then show ?thesis
  proof cases
    case opn
    with wf show ?thesis by (rule parse_open_step)
  next
    case lookup
    with wf show ?thesis by (rule parse_lookup_step)
  next
    case other
    with wf show ?thesis by (rule parse_other_step)
  qed
qed

lemma callback_moves_refl: "callback_moves mem mem"
  by (auto simp: callback_moves_def)

lemma callback_moves_upd:
  assumes "mem a = Some i" and "state j = state i \<or> state j = SUSCAN_ASYNC_STATE_HALTED"
  shows "callback_moves mem (mem(a \<mapsto> j))"
  unfolding callback_moves_def
proof (intro conjI allI impI)
  fix aa ia assume "mem aa = Some ia"
  with assms show "\<exists>i'. (mem(a \<mapsto> j)) aa = Some i' \<and>
                     (state i' = state ia \<or> state i' = SUSCAN_ASYNC_STATE_HALTED)"
    by (cases "aa = a") auto
next
  fix aa assume "mem aa = None"
  with assms show "(mem(a \<mapsto> j)) aa = None"
    by (cases "aa = a") auto
qed

lemma analyzer_wf_drop_task:
  assumes "analyzer_wf an"
  shows "analyzer_wf (an\<lparr>worker_tasks := take n (worker_tasks an) @ drop (Suc n) (worker_tasks an)\<rparr>)"
proof -
  have "a \<in> set (worker_tasks an)"
    if "a \<in> set (take n (worker_tasks an) @ drop (Suc n) (worker_tasks an))" for a
    using that by (auto dest: in_set_takeD in_set_dropD)
  with assms show ?thesis
    unfolding analyzer_wf_def by simp
qed

lemma worker_step:
  assumes wf: "analyzer_wf an"
  shows "\<exists>an'. engine_step su env an (Worker n cc) = Some an' \<and> analyzer_wf an' \<and>
           callback_moves (inspector_mem an) (inspector_mem an')"
proof (cases "n < length (worker_tasks an)")
  case False
  then have "engine_step su env an (Worker n cc) = Some an"
    by (simp add: engine_step_def)
  with wf show ?thesis
    by (simp add: callback_moves_refl)
next
  case True
  let ?a = "worker_tasks an ! n"
  from True have "?a \<in> set (worker_tasks an)" by simp
  with wf obtain i where at: "inspector_mem an ?a = Some i"
    unfolding analyzer_wf_def by blast
  from wk_cb_result [OF wf at, of su env cc]
  obtain an1 restart i' where
    cb: "suscan_inspector_wk_cb su env an cc ?a = Some (an1, restart)"
    and wf1: "analyzer_wf an1"
    and mem1: "inspector_mem an1 = (inspector_mem an)(?a \<mapsto> i')"
    and st: "state i' = (if restart then state i else SUSCAN_ASYNC_STATE_HALTED)"
    by blast
  from st have "state i' = state i \<or> state i' = SUSCAN_ASYNC_STATE_HALTED"
    by (cases restart) simp_all
  with at have moves: "callback_moves (inspector_mem an) (inspector_mem an1)"
    unfolding mem1 by (rule callback_moves_upd)
  show ?thesis
  proof (cases restart)
    case True
    with \<open>n < length (worker_tasks an)\<close> cb
    have "engine_step su env an (Worker n cc) = Some an1"
      by (simp add: engine_step_def)
    with wf1 moves show ?thesis by simp
  next
    case False
    let ?an2 = "an1\<lparr>worker_tasks := take n (worker_tasks an1) @ drop (Suc n) (worker_tasks an1)\<rparr>"
    from False \<open>n < length (worker_tasks an)\<close> cb
    have "engine_step su env an (Worker n cc) = Some ?an2"
      by (simp add: engine_step_def)
    moreover have "analyzer_wf ?an2" using wf1 by (rule analyzer_wf_drop_task)
    moreover have "inspector_mem ?an2 = inspector_mem an1" by simp
    ultimately show ?thesis using moves by simp
  qed
qed

lemma control_step:
  assumes wf: "analyzer_wf an"
  shows "\<exists>an'. engine_step su env an (Control msg ch) = Some an' \<and> analyzer_wf an' \<and>
           handler_moves (kind msg) (inspector_mem an) (inspector_mem an')"
proof -
  from parse_step [OF wf, of su env ch msg]
  obtain an' msg' ok where
    "suscan_analyzer_parse_inspector_msg su env an ch msg = Some (an', msg', ok)"
    "analyzer_wf an'" "handler_moves (kind msg) (inspector_mem an) (inspector_mem an')"
    by blast
  then show ?thesis
    by (simp add: engine_step_def)
qed

lemma engine_step_moves:
  assumes wf: "analyzer_wf an"
  shows "\<exists>an'. engine_step su env an ev = Some an' \<and> analyzer_wf an' \<and>
           step_moves ev (inspector_mem an) (inspector_mem an')"
proof (cases ev)
  case (Control msg ch)
  with control_step [OF wf, of su env msg ch] show ?thesis
    by (simp add: step_moves_def)
next
  case (Worker n cc)
  with worker_step [OF wf, of su env n cc] show ?thesis
    by (simp add: step_moves_def)
qed

lemma step_moves_rank:
  assumes "step_moves ev mem mem'" and "mem a = Some i"
  shows "\<exists>i'. mem' a = Some i' \<and> state_rank (state i) \<le> state_rank (state i')"
proof (cases ev)
  case (Control msg ch)
  with assms(1) have "handler_moves (kind msg) mem mem'"
    by (simp add: step_moves_def)
  with assms(2) obtain i' where i': "mem' a = Some i'"
    "state i' = state i \<or>
     (state i = SUSCAN_ASYNC_STATE_RUNNING \<and> state i' = SUSCAN_ASYNC_STATE_HALTING)"
    unfolding handler_moves_def by blast
  from i'(2) have "state_rank (state i) \<le> state_rank (state i')"
    by auto
  with i'(1) show ?thesis by blast
next
  case (Worker n cc)
  with assms(1) have "callback_moves mem mem'"
    by (simp add: step_moves_def)
  with assms(2) obtain i' where i': "mem' a = Some i'"
    "state i' = state i \<or> state i' = SUSCAN_ASYNC_STATE_HALTED"
    unfolding callback_moves_def by blast
  from i'(2) have "state_rank (state i) \<le> state_rank (state i')"
    by (cases "state i") auto
  with i'(1) show ?thesis by blast
qed

lemma engine_run_rank:
  assumes "analyzer_wf an"
  shows "\<exists>an'. engine_run su env an evs = Some an' \<and> analyzer_wf an' \<and>
           (\<forall>a i. inspector_mem an a = Some i \<longrightarrow>
              (\<exists>i'. inspector_mem an' a = Some i' \<and>
                    state_rank (state i) \<le> state_rank (state i')))"
  using assms
proof (induction evs arbitrary: an)
  case Nil
  then show ?case by simp
next
  case (Cons ev evs)
  from engine_step_moves [OF Cons.prems, of su env ev]
  obtain an1 where s: "engine_step su env an ev = Some an1" and wf1: "analyzer_wf an1"
    and mv: "step_moves ev (inspector_mem an) (inspector_mem an1)"
    by blast
  from Cons.IH [OF wf1]
  obtain an' where r: "engine_run su env an1 evs = Some an'" and wf': "analyzer_wf an'"
    and rk: "\<forall>a i. inspector_mem an1 a = Some i \<longrightarrow>
              (\<exists>i'. inspector_mem an' a = Some i' \<and>
                    state_rank (state i) \<le> state_rank (state i'))"
    by blast
  have "\<exists>i'. inspector_mem an' a = Some i' \<and> state_rank (state i) \<le> state_rank (state i')"
    if at: "inspector_mem an a = Some i" for a i
  proof -
    from step_moves_rank [OF mv at]
    obtain i1 where i1: "inspector_mem an1 a = Some i1"
      "state_rank (state i) \<le> state_rank (state i1)"
      by blast
    from rk i1(1) obtain i' where "inspector_mem an' a = Some i'"
      "state_rank (state i1) \<le> state_rank (state i')"
      by blast
    with i1(2) show ?thesis by auto
  qed
  with s r wf' show ?case
    by simp
qed

lemma register_moves:
  assumes "inspector_mem an new = Some j"
  shows "\<exists>an2 hnd j'. suscan_analyzer_register_inspector an ch new = Some (an2, hnd) \<and>
           inspector_mem an2 new = Some j' \<and>
           state j' = (if state j = SUSCAN_ASYNC_STATE_CREATED \<and> ptr_list_grows ch
                       then SUSCAN_ASYNC_STATE_RUNNING else state j)"
proof (cases "state j = SUSCAN_ASYNC_STATE_CREATED")
  case False
  with assms have "suscan_analyzer_register_inspector an ch new = Some (an, SU_FALSE)"
    by (simp add: suscan_analyzer_register_inspector_def)
  with assms False show ?thesis by simp
next
  case True
  show ?thesis
  proof (cases "ptr_list_grows ch")
    case False
    with assms True have "suscan_analyzer_register_inspector an ch new = Some (an, -1)"
      by (simp add: suscan_analyzer_register_inspector_def PTR_LIST_APPEND_CHECK_def)
    with assms False show ?thesis by simp
  next
    case grows: True
    let ?hnd = "int (length (inspector_list an))"
    let ?an1 = "an\<lparr>inspector_list := inspector_list an @ [Some new],
                    inspector_mem := (inspector_mem an)(new \<mapsto>
                      j\<lparr>state := SUSCAN_ASYNC_STATE_RUNNING\<rparr>)\<rparr>"
    have d: "inspector_mem (fst (suscan_analyzer_dispose_inspector_handle ?an1 ?hnd)) new =
               Some (j\<lparr>state := SUSCAN_ASYNC_STATE_RUNNING\<rparr>)"
      by (simp add: suscan_analyzer_dispose_inspector_handle_def)
    show ?thesis
    proof (cases "push_task_ok ch")
      case True
      with assms \<open>state j = SUSCAN_ASYNC_STATE_CREATED\<close> grows
      have "suscan_analyzer_register_inspector an ch new =
              Some (?an1\<lparr>worker_tasks := worker_tasks ?an1 @ [new]\<rparr>, ?hnd)"
        by (simp add: suscan_analyzer_register_inspector_def PTR_LIST_APPEND_CHECK_def Let_def)
      with \<open>state j = SUSCAN_ASYNC_STATE_CREATED\<close> grows show ?thesis by simp
    next
      case False
      with assms \<open>state j = SUSCAN_ASYNC_STATE_CREATED\<close> grows
      have "suscan_analyzer_register_inspector an ch new =
              Some (fst (suscan_analyzer_dispose_inspector_handle ?an1 ?hnd), -1)"
        by (simp add: suscan_analyzer_register_inspector_def PTR_LIST_APPEND_CHECK_def Let_def)
      with d \<open>state j = SUSCAN_ASYNC_STATE_CREATED\<close> grows show ?thesis by simp
    qed
  qed
qed

lemma close_moves:
  assumes wf: "analyzer_wf an"
    and g: "suscan_analyzer_get_inspector an (handle msg) = Some (Some a)"
    and at: "inspector_mem an a = Some i"
    and k: "kind msg = SUSCAN_ANALYZER_INSPECTOR_MSGKIND_CLOSE"
  shows "state i = SUSCAN_ASYNC_STATE_RUNNING \<and>
         (\<exists>an' msg' ok. suscan_analyzer_parse_inspector_msg su env an ch msg = Some (an', msg', ok) \<and>
            inspector_mem an' = (inspector_mem an)(a \<mapsto> i\<lparr>state := SUSCAN_ASYNC_STATE_HALTING\<rparr>))"
proof -
  from g at have run: "state i = SUSCAN_ASYNC_STATE_RUNNING"
    by (auto simp: get_inspector_iff)
  let ?an1 = "an\<lparr>inspector_mem := (inspector_mem an)(a \<mapsto>
                  i\<lparr>state := SUSCAN_ASYNC_STATE_HALTING\<rparr>)\<rparr>"
  let ?msg' = "msg\<lparr>msg_inspector_id := inspector_id (params i)\<rparr>"
  have alloc: "inspector_mem an a \<noteq> None" using at by simp
  have step: "suscan_analyzer_parse_inspector_msg su env an ch msg =
          parse_inspector_msg_reply env ?an1 ch ?msg' None"
    using k g at run by (simp add: suscan_analyzer_parse_inspector_msg_def Let_def)
  have wf1: "analyzer_wf ?an1" using wf alloc by (rule analyzer_wf_insp_update)
  from reply_wf [OF wf1, of None env ch ?msg']
  obtain an' msg1 ok where
    "parse_inspector_msg_reply env ?an1 ch ?msg' None = Some (an', msg1, ok)"
    "inspector_mem an' = (inspector_mem an)(a \<mapsto> i\<lparr>state := SUSCAN_ASYNC_STATE_HALTING\<rparr>)"
    by auto
  with step run show ?thesis
    by auto
qed

lemma wk_cb_halting:
  assumes "inspector_mem an a = Some i" and "state i = SUSCAN_ASYNC_STATE_HALTING"
  shows "\<exists>an'. suscan_inspector_wk_cb su env an cc a = Some (an', False)"
  using assms by (simp add: suscan_inspector_wk_cb_def wk_cb_done_def Let_def)

lemma wk_cb_moves:
  assumes "analyzer_wf an" and "inspector_mem an a = Some i"
  shows "\<exists>an' restart i'. suscan_inspector_wk_cb su env an cc a = Some (an', restart) \<and>
           inspector_mem an' a = Some i' \<and>
           state i' = (if restart then state i else SUSCAN_ASYNC_STATE_HALTED) \<and>
           (state i = SUSCAN_ASYNC_STATE_HALTING \<longrightarrow> \<not> restart)"
proof -
  from wk_cb_result [OF assms, of su env cc]
  obtain an' restart i' where r:
    "suscan_inspector_wk_cb su env an cc a = Some (an', restart)"
    "inspector_mem an' = (inspector_mem an)(a \<mapsto> i')"
    "state i' = (if restart then state i else SUSCAN_ASYNC_STATE_HALTED)"
    by blast
  have "\<not> restart" if "state i = SUSCAN_ASYNC_STATE_HALTING"
    using wk_cb_halting [OF assms(2) that, of su env cc] r(1) by auto
  with r show ?thesis by auto
qed

lemma engine_run_append:
  "engine_run su env an (evs1 @ evs2) =
     (case engine_run su env an evs1 of
        None \<Rightarrow> None
      | Some an1 \<Rightarrow> engine_run su env an1 evs2)"
  by (induction evs1 arbitrary: an) (simp_all split: option.splits)

lemma engine_run_split:
  assumes "analyzer_wf an"
  shows "\<exists>an1 an2. engine_run su env an evs1 = Some an1 \<and>
           engine_run su env an1 evs2 = Some an2 \<and>
           engine_run su env an (evs1 @ evs2) = Some an2 \<and> analyzer_wf an2 \<and>
           (\<forall>a i. inspector_mem an1 a = Some i \<longrightarrow>
              (\<exists>i'. inspector_mem an2 a = Some i' \<and>
                    state_rank (state i) \<le> state_rank (state i')))"
proof -
  from engine_run_rank [OF assms, of su env evs1]
  obtain an1 where r1: "engine_run su env an evs1 = Some an1" and wf1: "analyzer_wf an1"
    by blast
  from engine_run_rank [OF wf1, of su env evs2]
  obtain an2 where r2: "engine_run su env an1 evs2 = Some an2" and wf2: "analyzer_wf an2"
    and rk: "\<forall>a i. inspector_mem an1 a = Some i \<longrightarrow>
              (\<exists>i'. inspector_mem an2 a = Some i' \<and>
                    state_rank (state i) \<le> state_rank (state i'))"
    by blast
  from r1 r2 have "engine_run su env an (evs1 @ evs2) = Some an2"
    by (simp add: engine_run_append)
  with r1 r2 wf2 rk show ?thesis by blast
qed

lemma analyzer_plain_wf: "analyzer_wf analyzer_plain"
proof -
  have "mq_holds (msg_mem analyzer_plain) (mq_out analyzer_plain) [] []"
    by (simp add: analyzer_plain_def mq_holds_init)
  then have "\<exists>as xs. mq_holds (msg_mem analyzer_plain) (mq_out analyzer_plain) as xs"
    by blast
  then show ?thesis
    unfolding analyzer_wf_def by (simp add: analyzer_plain_def)
qed

lemma analyzer_created_wf: "analyzer_wf analyzer_created"
proof -
  have "mq_holds (msg_mem analyzer_created) (mq_out analyzer_created) [] []"
    by (simp add: analyzer_created_def analyzer_plain_def mq_holds_init)
  then have "\<exists>as xs. mq_holds (msg_mem analyzer_created) (mq_out analyzer_created) as xs"
    by blast
  then show ?thesis
    unfolding analyzer_wf_def by (simp add: analyzer_created_def analyzer_plain_def)
qed

lemma analyzer_one_wf: "analyzer_wf analyzer_one"
proof -
  have "mq_holds (msg_mem analyzer_one) (mq_out analyzer_one) [] []"
    by (simp add: analyzer_one_def analyzer_plain_def mq_holds_init)
  then have "\<exists>as xs. mq_holds (msg_mem analyzer_one) (mq_out analyzer_one) as xs"
    by blast
  then show ?thesis
    unfolding analyzer_wf_def
    by (simp add: analyzer_one_def analyzer_plain_def)
qed

text \<open>
  A life on the example analyzer: OPEN creates and registers an inspector, which is
  Running; CLOSE and the next callback leave it Halted.
\<close>

lemma open_registers_running:
  "map_option (\<lambda>an. (map_option state (inspector_mem an 0), inspector_list an, worker_tasks an))
     (engine_run su_plain env_plain analyzer_plain
        [Control (request SUSCAN_ANALYZER_INSPECTOR_MSGKIND_OPEN 42 (-1)) all_ok]) =
   Some (Some SUSCAN_ASYNC_STATE_RUNNING, [Some 0], [0])"
  by (simp add: engine_step_def handler_defs example_defs Let_def)

lemma open_close_callback_halted:
  "map_option (\<lambda>an. (map_option state (inspector_mem an 0), inspector_list an, worker_tasks an))
     (engine_run su_plain env_plain analyzer_plain
        ([Control (request SUSCAN_ANALYZER_INSPECTOR_MSGKIND_OPEN 42 (-1)) all_ok] @
         [Control (request SUSCAN_ANALYZER_INSPECTOR_MSGKIND_CLOSE 43 0) all_ok,
          Worker 0 cb_all_ok])) =
   Some (Some SUSCAN_ASYNC_STATE_HALTED, [Some 0], [])"
  by (simp add: engine_step_def suscan_inspector_wk_cb_def wk_cb_done_def handler_defs
      example_defs Let_def)

text \<open>
  C8.  Operations are taken one at a time.  From a well-formed analyzer every sequence
  of control messages and worker callbacks runs to the end, and between any two moments
  of the run each inspector that is there at the earlier one is still there at the later
  one with a state that is not smaller in the order Created < Running < Halting < Halted.
  One operation does only this: a control message keeps each state or, for CLOSE, moves
  Running to Halting, and an inspector that OPEN adds is Running; a callback keeps each
  state or moves it to Halted.  Registration moves a Created inspector to Running when
  the table takes it, and changes no state otherwise.  CLOSE finds only a Running
  inspector and moves it to Halting.  The callback returns; the state after it is Halted
  when it returns false (the task is dropped), which it does for a Halting inspector,
  and as before when it returns true.
\<close>

theorem inspector_state_monotone:
  assumes "analyzer_wf an"
  shows "(\<exists>an1 an2. engine_run su env an evs1 = Some an1 \<and>
            engine_run su env an1 evs2 = Some an2 \<and>
            engine_run su env an (evs1 @ evs2) = Some an2 \<and> analyzer_wf an2 \<and>
            (\<forall>a i. inspector_mem an1 a = Some i \<longrightarrow>
               (\<exists>i'. inspector_mem an2 a = Some i' \<and>
                     state_rank (state i) \<le> state_rank (state i')))) \<and>
         (\<exists>an1. engine_step su env an ev = Some an1 \<and>
            step_moves ev (inspector_mem an) (inspector_mem an1)) \<and>
         (\<forall>a i. inspector_mem an a = Some i \<longrightarrow>
            (\<exists>an2 hnd i'. suscan_analyzer_register_inspector an ch a = Some (an2, hnd) \<and>
               inspector_mem an2 a = Some i' \<and>
               state i' = (if state i = SUSCAN_ASYNC_STATE_CREATED \<and> ptr_list_grows ch
                           then SUSCAN_ASYNC_STATE_RUNNING else state i))) \<and>
         (\<forall>a i. kind msg = SUSCAN_ANALYZER_INSPECTOR_MSGKIND_CLOSE \<and>
                suscan_analyzer_get_inspector an (handle msg) = Some (Some a) \<and>
                inspector_mem an a = Some i \<longrightarrow>
            state i = SUSCAN_ASYNC_STATE_RUNNING \<and>
            (\<exists>an3 msg' ok.
               suscan_analyzer_parse_inspector_msg su env an ch msg = Some (an3, msg', ok) \<and>
               inspector_mem an3 =
                 (inspector_mem an)(a \<mapsto> i\<lparr>state := SUSCAN_ASYNC_STATE_HALTING\<rparr>))) \<and>
         (\<forall>a i. inspector_mem an a = Some i \<longrightarrow>
            (\<exists>an4 restart i'. suscan_inspector_wk_cb su env an cc a = Some (an4, restart) \<and>
               inspector_mem an4 a = Some i' \<and>
               state i' = (if restart then state i else SUSCAN_ASYNC_STATE_HALTED) \<and>
               (state i = SUSCAN_ASYNC_STATE_HALTING \<longrightarrow> \<not> restart)))"
proof (intro conjI allI impI)
  show "\<exists>an1 an2. engine_run su env an evs1 = Some an1 \<and>
            engine_run su env an1 evs2 = Some an2 \<and>
            engine_run su env an (evs1 @ evs2) = Some an2 \<and> analyzer_wf an2 \<and>
            (\<forall>a i. inspector_mem an1 a = Some i \<longrightarrow>
               (\<exists>i'. inspector_mem an2 a = Some i' \<and>
                     state_rank (state i) \<le> state_rank (state i')))"
    using assms by (rule engine_run_split)
next
  from engine_step_moves [OF assms, of su env ev]
  show "\<exists>an1. engine_step su env an ev = Some an1 \<and>
            step_moves ev (inspector_mem an) (inspector_mem an1)"
    by blast
next
  fix a i assume "inspector_mem an a = Some i"
  then show "\<exists>an2 hnd i'. suscan_analyzer_register_inspector an ch a = Some (an2, hnd) \<and>
               inspector_mem an2 a = Some i' \<and>
               state i' = (if state i = SUSCAN_ASYNC_STATE_CREATED \<and> ptr_list_grows ch
                           then SUSCAN_ASYNC_STATE_RUNNING else state i)"
    by (rule register_moves)
next
  fix a i
  assume h: "kind msg = SUSCAN_ANALYZER_INSPECTOR_MSGKIND_CLOSE \<and>
                suscan_analyzer_get_inspector an (handle msg) = Some (Some a) \<and>
                inspector_mem an a = Some i"
  from close_moves [OF assms, of msg a i su env ch] h
  show "state i = SUSCAN_ASYNC_STATE_RUNNING" by blast
  from close_moves [OF assms, of msg a i su env ch] h
  show "\<exists>an3 msg' ok.
               suscan_analyzer_parse_inspector_msg su env an ch msg = Some (an3, msg', ok) \<and>
               inspector_mem an3 =
                 (inspector_mem an)(a \<mapsto> i\<lparr>state := SUSCAN_ASYNC_STATE_HALTING\<rparr>)"
    by blast
next
  fix a i assume "inspector_mem an a = Some i"
  with assms show "\<exists>an4 restart i'. suscan_inspector_wk_cb su env an cc a = Some (an4, restart) \<and>
               inspector_mem an4 a = Some i' \<and>
               state i' = (if restart then state i else SUSCAN_ASYNC_STATE_HALTED) \<and>
               (state i = SUSCAN_ASYNC_STATE_HALTING \<longrightarrow> \<not> restart)"
    by (rule wk_cb_moves)
qed

theorem inspector_state_monotone_witness:
  "analyzer_wf analyzer_plain \<and>
   (\<exists>an1 an2 i1 i2.
      engine_run su_plain env_plain analyzer_plain
        [Control (request SUSCAN_ANALYZER_INSPECTOR_MSGKIND_OPEN 42 (-1)) all_ok] = Some an1 \<and>
      inspector_mem an1 0 = Some i1 \<and> state i1 = SUSCAN_ASYNC_STATE_RUNNING \<and>
      engine_run su_plain env_plain an1
        [Control (request SUSCAN_ANALYZER_INSPECTOR_MSGKIND_CLOSE 43 0) all_ok,
         Worker 0 cb_all_ok] = Some an2 \<and>
      inspector_mem an2 0 = Some i2 \<and> state i2 = SUSCAN_ASYNC_STATE_HALTED \<and>
      state_rank (state i1) \<le> state_rank (state i2)) \<and>
   analyzer_wf analyzer_created \<and>
   inspector_mem analyzer_created 0 = Some (insp_plain\<lparr>state := SUSCAN_ASYNC_STATE_CREATED\<rparr>) \<and>
   ptr_list_grows all_ok \<and>
   (\<exists>an2 hnd i'.
      suscan_analyzer_register_inspector analyzer_created all_ok 0 = Some (an2, hnd) \<and>
      inspector_mem an2 0 = Some i' \<and> state i' = SUSCAN_ASYNC_STATE_RUNNING) \<and>
   analyzer_wf analyzer_one \<and>
   suscan_analyzer_get_inspector analyzer_one 0 = Some (Some 0) \<and>
   inspector_mem analyzer_one 0 = Some insp_plain \<and>
   (\<exists>an3 msg' ok.
      suscan_analyzer_parse_inspector_msg su_plain env_plain analyzer_one all_ok
        (request SUSCAN_ANALYZER_INSPECTOR_MSGKIND_CLOSE 43 0) = Some (an3, msg', ok) \<and>
      inspector_mem an3 = [0 \<mapsto> insp_plain\<lparr>state := SUSCAN_ASYNC_STATE_HALTING\<rparr>])"
proof -
  let ?opn = "[Control (request SUSCAN_ANALYZER_INSPECTOR_MSGKIND_OPEN 42 (-1)) all_ok]"
  let ?rest = "[Control (request SUSCAN_ANALYZER_INSPECTOR_MSGKIND_CLOSE 43 0) all_ok,
                Worker 0 cb_all_ok]"
  let ?close = "request SUSCAN_ANALYZER_INSPECTOR_MSGKIND_CLOSE 43 0"
  from inspector_state_monotone [OF analyzer_plain_wf, of su_plain env_plain ?opn ?rest]
  obtain an1 an2 where
    r1: "engine_run su_plain env_plain analyzer_plain ?opn = Some an1"
    and r2: "engine_run su_plain env_plain an1 ?rest = Some an2"
    and r12: "engine_run su_plain env_plain analyzer_plain (?opn @ ?rest) = Some an2"
    and rk: "\<forall>a i. inspector_mem an1 a = Some i \<longrightarrow>
               (\<exists>i'. inspector_mem an2 a = Some i' \<and>
                     state_rank (state i) \<le> state_rank (state i'))"
    by blast
  from open_registers_running r1
  obtain i1 where i1: "inspector_mem an1 0 = Some i1" "state i1 = SUSCAN_ASYNC_STATE_RUNNING"
    by auto
  from rk i1(1) obtain i2 where i2: "inspector_mem an2 0 = Some i2"
    "state_rank (state i1) \<le> state_rank (state i2)"
    by blast
  from open_close_callback_halted r12 i2(1)
  have h2: "state i2 = SUSCAN_ASYNC_STATE_HALTED"
    by auto
  have life: "\<exists>an1 an2 i1 i2.
      engine_run su_plain env_plain analyzer_plain ?opn = Some an1 \<and>
      inspector_mem an1 0 = Some i1 \<and> state i1 = SUSCAN_ASYNC_STATE_RUNNING \<and>
      engine_run su_plain env_plain an1 ?rest = Some an2 \<and>
      inspector_mem an2 0 = Some i2 \<and> state i2 = SUSCAN_ASYNC_STATE_HALTED \<and>
      state_rank (state i1) \<le> state_rank (state i2)"
    using r1 i1 r2 i2 h2 by blast
  have c: "inspector_mem analyzer_created 0 = Some (insp_plain\<lparr>state := SUSCAN_ASYNC_STATE_CREATED\<rparr>)"
    "state (insp_plain\<lparr>state := SUSCAN_ASYNC_STATE_CREATED\<rparr>) = SUSCAN_ASYNC_STATE_CREATED"
    "ptr_list_grows all_ok"
    by (simp_all add: analyzer_created_def analyzer_plain_def all_ok_def)
  from inspector_state_monotone [OF analyzer_created_wf, where ch = all_ok] c
  have reg: "\<exists>an2 hnd i'.
      suscan_analyzer_register_inspector analyzer_created all_ok 0 = Some (an2, hnd) \<and>
      inspector_mem an2 0 = Some i' \<and> state i' = SUSCAN_ASYNC_STATE_RUNNING"
    by (metis (full_types))
  have o: "suscan_analyzer_get_inspector analyzer_one 0 = Some (Some 0)"
    "inspector_mem analyzer_one 0 = Some insp_plain"
    "kind ?close = SUSCAN_ANALYZER_INSPECTOR_MSGKIND_CLOSE" "handle ?close = 0"
    "inspector_mem analyzer_one = [0 \<mapsto> insp_plain]"
    by (simp_all add: suscan_analyzer_get_inspector_def analyzer_one_def analyzer_plain_def
        insp_plain_def request_def)
  from inspector_state_monotone [OF analyzer_one_wf, where msg = ?close and ch = all_ok
      and su = su_plain and env = env_plain] o(1-4)
  have "\<exists>an3 msg' ok.
      suscan_analyzer_parse_inspector_msg su_plain env_plain analyzer_one all_ok ?close =
        Some (an3, msg', ok) \<and>
      inspector_mem an3 =
        (inspector_mem analyzer_one)(0 \<mapsto> insp_plain\<lparr>state := SUSCAN_ASYNC_STATE_HALTING\<rparr>)"
    by (metis (full_types))
  then have cl: "\<exists>an3 msg' ok.
      suscan_analyzer_parse_inspector_msg su_plain env_plain analyzer_one all_ok ?close =
        Some (an3, msg', ok) \<and>
      inspector_mem an3 = [0 \<mapsto> insp_plain\<lparr>state := SUSCAN_ASYNC_STATE_HALTING\<rparr>]"
    unfolding o(5) by simp
  from analyzer_plain_wf life analyzer_created_wf c(1,3) reg analyzer_one_wf o(1,2) cl
  show ?thesis
    by blast
qed

text \<open>
  A state with \<open>sym_phase\<close> beyond \<open>sym_period\<close> is reached by the handler: an inspector
  with period 8 takes five samples, which bring \<open>sym_phase\<close> to 5, and then \<open>SET_PARAMS\<close>
  with baud rate 2 at sample rate 8 sets the period to 4 and leaves \<open>sym_phase\<close> alone.
\<close>

lemma sampler_state_reachable:
  "map_option (\<lambda>r. (sym_period (fst r), sym_phase (fst r), snd r))
     (suscan_inspector_feed_bulk su_plain (insp_plain\<lparr>sym_period := 8\<rparr>) [1, 1, 1, 1, 1] 5)
     = Some (8, 5, 5) \<and>
   (\<exists>an' msg' i'.
      suscan_analyzer_parse_inspector_msg su_plain env_plain
        (analyzer_one\<lparr>inspector_mem := [0 \<mapsto> insp_plain\<lparr>sym_period := 8, sym_phase := 5\<rparr>]\<rparr>)
        all_ok (request SUSCAN_ANALYZER_INSPECTOR_MSGKIND_PARAMS 46 0) = Some (an', msg', True) \<and>
      inspector_mem an' 0 = Some i' \<and> sym_period i' = 4 \<and> sym_phase i' = 5)"
proof (intro conjI)
  show "map_option (\<lambda>r. (sym_period (fst r), sym_phase (fst r), snd r))
     (suscan_inspector_feed_bulk su_plain (insp_plain\<lparr>sym_period := 8\<rparr>) [1, 1, 1, 1, 1] 5)
     = Some (8, 5, 5)"
    by (simp add: suscan_inspector_feed_bulk_def feed_bulk_loop.simps
        feed_bulk_body_def symbol_sampler_def su_plain_def insp_plain_def Let_def)
next
  show "\<exists>an' msg' i'.
      suscan_analyzer_parse_inspector_msg su_plain env_plain
        (analyzer_one\<lparr>inspector_mem := [0 \<mapsto> insp_plain\<lparr>sym_period := 8, sym_phase := 5\<rparr>]\<rparr>)
        all_ok (request SUSCAN_ANALYZER_INSPECTOR_MSGKIND_PARAMS 46 0) = Some (an', msg', True) \<and>
      inspector_mem an' 0 = Some i' \<and> sym_period i' = 4 \<and> sym_phase i' = 5"
    by (simp add: handler_defs example_defs analyzer_one_def Let_def)
qed

end
